theory Spec2Isabelle
  imports Main "HOL-Library.Word"
begin

section \<open>Constants of the component API\<close>

text \<open>
  The component states and the stream commands are preprocessor constants of
  \<^verbatim>\<open>component.h\<close>; \<^verbatim>\<open>dev->state\<close> and \<^verbatim>\<open>cmd\<close> are plain integers in the
  source and stay integers here, so that the \<^verbatim>\<open>default:\<close> branches and the
  comparison \<^verbatim>\<open>state > COMP_STATE_READY\<close> mean what they mean in C.
\<close>

definition COMP_STATE_INIT :: int where "COMP_STATE_INIT = 0"
definition COMP_STATE_READY :: int where "COMP_STATE_READY = 1"
definition COMP_STATE_SUSPEND :: int where "COMP_STATE_SUSPEND = 2"
definition COMP_STATE_PREPARE :: int where "COMP_STATE_PREPARE = 3"
definition COMP_STATE_PAUSED :: int where "COMP_STATE_PAUSED = 4"
definition COMP_STATE_ACTIVE :: int where "COMP_STATE_ACTIVE = 5"

definition COMP_TRIGGER_STOP :: int where "COMP_TRIGGER_STOP = 0"
definition COMP_TRIGGER_START :: int where "COMP_TRIGGER_START = 1"
definition COMP_TRIGGER_PAUSE :: int where "COMP_TRIGGER_PAUSE = 2"
definition COMP_TRIGGER_RELEASE :: int where "COMP_TRIGGER_RELEASE = 3"
definition COMP_TRIGGER_SUSPEND :: int where "COMP_TRIGGER_SUSPEND = 4"
definition COMP_TRIGGER_RESUME :: int where "COMP_TRIGGER_RESUME = 5"
definition COMP_TRIGGER_RESET :: int where "COMP_TRIGGER_RESET = 6"
definition COMP_TRIGGER_PREPARE :: int where "COMP_TRIGGER_PREPARE = 7"
definition COMP_TRIGGER_XRUN :: int where "COMP_TRIGGER_XRUN = 8"

definition COMP_STATUS_STATE_ALREADY_SET :: int where
  "COMP_STATUS_STATE_ALREADY_SET = 1"

text \<open>The two \<^verbatim>\<open>errno.h\<close> codes the modelled functions return (negated).\<close>

definition EINVAL :: int where "EINVAL = 22"
definition ENOMEM :: int where "ENOMEM = 12"

section \<open>Component device\<close>

text \<open>
  \<^verbatim>\<open>struct comp_dev\<close>, restricted to the fields the pipeline engine reads or
  writes. Pointers to buffers, components and pipelines are handles (natural
  numbers) into the tables of the world record below; a pointer that the
  source tests against \<^verbatim>\<open>NULL\<close> is an option. The two intrusive lists
  \<^verbatim>\<open>bsource_list\<close> and \<^verbatim>\<open>bsink_list\<close> are lists of buffer handles in list
  order. \<^verbatim>\<open>comp_id\<close>, \<^verbatim>\<open>comp_type\<close> and \<^verbatim>\<open>comp_pipeline_id\<close> are the fields
  \<^verbatim>\<open>comp.id\<close>, \<^verbatim>\<open>comp.type\<close> and \<^verbatim>\<open>comp.pipeline_id\<close> of the embedded IPC
  header.
\<close>

record comp_dev =
  state :: int
  direction :: int
  pipeline :: "nat option"
  comp_id :: nat
  comp_type :: int
  comp_pipeline_id :: nat
  bsource_list :: "nat list"
  bsink_list :: "nat list"

subsection \<open>The component state machine\<close>

definition comp_get_requested_state :: "int \<Rightarrow> int" where
  "comp_get_requested_state cmd =
     (if cmd = COMP_TRIGGER_START \<or> cmd = COMP_TRIGGER_RELEASE then COMP_STATE_ACTIVE
      else if cmd = COMP_TRIGGER_PREPARE \<or> cmd = COMP_TRIGGER_STOP then COMP_STATE_PREPARE
      else if cmd = COMP_TRIGGER_PAUSE then COMP_STATE_PAUSED
      else if cmd = COMP_TRIGGER_XRUN \<or> cmd = COMP_TRIGGER_RESET then COMP_STATE_READY
      else COMP_STATE_INIT)"

text \<open>
  \<^verbatim>\<open>comp_set_state\<close> returns its \<^verbatim>\<open>int\<close> result together with the updated
  device. The \<^verbatim>\<open>switch\<close> is written as the chain of its cases in source
  order; the trace calls carry no state and are left out.
\<close>

definition comp_set_state :: "comp_dev \<Rightarrow> int \<Rightarrow> int \<times> comp_dev" where
  "comp_set_state dev cmd =
     (let requested_state = comp_get_requested_state cmd in
      if state dev = requested_state then (COMP_STATUS_STATE_ALREADY_SET, dev)
      else if cmd = COMP_TRIGGER_START then
        (if state dev = COMP_STATE_PREPARE
         then (0, dev\<lparr>state := COMP_STATE_ACTIVE\<rparr>) else (- EINVAL, dev))
      else if cmd = COMP_TRIGGER_RELEASE then
        (if state dev = COMP_STATE_PAUSED
         then (0, dev\<lparr>state := COMP_STATE_ACTIVE\<rparr>) else (- EINVAL, dev))
      else if cmd = COMP_TRIGGER_STOP then
        (if state dev = COMP_STATE_ACTIVE \<or> state dev = COMP_STATE_PAUSED
         then (0, dev\<lparr>state := COMP_STATE_PREPARE\<rparr>) else (- EINVAL, dev))
      else if cmd = COMP_TRIGGER_XRUN then
        (0, dev\<lparr>state := COMP_STATE_READY\<rparr>)
      else if cmd = COMP_TRIGGER_PAUSE then
        (if state dev = COMP_STATE_ACTIVE
         then (0, dev\<lparr>state := COMP_STATE_PAUSED\<rparr>) else (- EINVAL, dev))
      else if cmd = COMP_TRIGGER_RESET then
        (0, dev\<lparr>state := COMP_STATE_READY\<rparr>)
      else if cmd = COMP_TRIGGER_PREPARE then
        (if state dev = COMP_STATE_READY
         then (0, dev\<lparr>state := COMP_STATE_PREPARE\<rparr>) else (- EINVAL, dev))
      else (0, dev))"

subsection \<open>The transition table of the specification\<close>

text \<open>
  The table of the specification, written from its words and independently of
  the code: a command names a new state and the prior states it is legal in;
  a request for the state the component is already in is reported as
  already set; anything else is an invalid state.
\<close>

datatype fsm_outcome = NewState int | AlreadySet | InvalidState

definition table_new_state :: "int \<Rightarrow> int" where
  "table_new_state c =
     (if c = COMP_TRIGGER_PREPARE then COMP_STATE_PREPARE
      else if c = COMP_TRIGGER_START then COMP_STATE_ACTIVE
      else if c = COMP_TRIGGER_RELEASE then COMP_STATE_ACTIVE
      else if c = COMP_TRIGGER_PAUSE then COMP_STATE_PAUSED
      else if c = COMP_TRIGGER_STOP then COMP_STATE_PREPARE
      else COMP_STATE_READY)"

definition table_prior_ok :: "int \<Rightarrow> int \<Rightarrow> bool" where
  "table_prior_ok c s =
     (if c = COMP_TRIGGER_PREPARE then s = COMP_STATE_READY
      else if c = COMP_TRIGGER_START then s = COMP_STATE_PREPARE
      else if c = COMP_TRIGGER_RELEASE then s = COMP_STATE_PAUSED
      else if c = COMP_TRIGGER_PAUSE then s = COMP_STATE_ACTIVE
      else if c = COMP_TRIGGER_STOP then s = COMP_STATE_ACTIVE \<or> s = COMP_STATE_PAUSED
      else True)"

definition spec_set_state :: "int \<Rightarrow> int \<Rightarrow> fsm_outcome" where
  "spec_set_state s c =
     (if table_new_state c = s then AlreadySet
      else if table_prior_ok c s then NewState (table_new_state c)
      else InvalidState)"

definition fsm_states :: "int set" where
  "fsm_states = {COMP_STATE_INIT, COMP_STATE_READY, COMP_STATE_PREPARE,
                 COMP_STATE_ACTIVE, COMP_STATE_PAUSED}"

definition fsm_commands :: "int set" where
  "fsm_commands = {COMP_TRIGGER_PREPARE, COMP_TRIGGER_START, COMP_TRIGGER_RELEASE,
                   COMP_TRIGGER_PAUSE, COMP_TRIGGER_STOP, COMP_TRIGGER_RESET,
                   COMP_TRIGGER_XRUN}"

section \<open>Ring buffer\<close>

text \<open>
  \<^verbatim>\<open>struct comp_buffer\<close>. The byte counters \<^verbatim>\<open>size\<close>, \<^verbatim>\<open>avail\<close> and \<^verbatim>\<open>free\<close> are
  \<^verbatim>\<open>uint32_t\<close> and are 32-bit words here, so that every subtraction wraps as it
  does in C. The four pointers \<^verbatim>\<open>addr\<close>, \<^verbatim>\<open>end_addr\<close>, \<^verbatim>\<open>r_ptr\<close> and \<^verbatim>\<open>w_ptr\<close>
  are byte addresses (natural numbers): pointer arithmetic does not wrap, and
  the difference of two pointers is converted to \<^verbatim>\<open>uint32_t\<close> when it is stored
  in a counter. \<^verbatim>\<open>source\<close> and \<^verbatim>\<open>sink\<close> are the producing and the consuming
  component, \<^verbatim>\<open>NULL\<close> when not connected. The field \<^verbatim>\<open>size\<close> is named
  \<open>size_bytes\<close>.
\<close>

record comp_buffer =
  size_bytes :: "32 word"
  avail :: "32 word"
  free :: "32 word"
  addr :: nat
  end_addr :: nat
  r_ptr :: nat
  w_ptr :: nat
  source :: "nat option"
  sink :: "nat option"

text \<open>
  The transaction handed to the notifier: the notifier id, the amount and the
  address the transaction begins at.
\<close>

datatype buffer_notification =
    NOTIFIER_ID_BUFFER_PRODUCE "32 word" nat
  | NOTIFIER_ID_BUFFER_CONSUME "32 word" nat

definition comp_update_buffer_produce ::
  "comp_buffer \<Rightarrow> 32 word \<Rightarrow> comp_buffer \<times> buffer_notification list" where
  "comp_update_buffer_produce buffer bytes =
     (if bytes = 0 then (buffer, [])
      else
        let w1 = w_ptr buffer + unat bytes;
            w2 = (if w1 \<ge> end_addr buffer
                  then addr buffer + (w1 - end_addr buffer) else w1);
            r2 = (if bytes > free buffer then w2 else r_ptr buffer);
            avail2 = (if r2 < w2 then of_nat (w2 - r2)
                      else if r2 = w2 then size_bytes buffer
                      else size_bytes buffer - of_nat (r2 - w2));
            free2 = size_bytes buffer - avail2
        in (buffer\<lparr>w_ptr := w2, r_ptr := r2, avail := avail2, free := free2\<rparr>,
            [NOTIFIER_ID_BUFFER_PRODUCE bytes (w_ptr buffer)]))"

definition comp_update_buffer_consume ::
  "comp_buffer \<Rightarrow> 32 word \<Rightarrow> comp_buffer \<times> buffer_notification list" where
  "comp_update_buffer_consume buffer bytes =
     (if bytes = 0 then (buffer, [])
      else
        let r1 = r_ptr buffer + unat bytes;
            r2 = (if r1 \<ge> end_addr buffer
                  then addr buffer + (r1 - end_addr buffer) else r1);
            avail2 = (if r2 < w_ptr buffer then of_nat (w_ptr buffer - r2)
                      else if r2 = w_ptr buffer then 0
                      else size_bytes buffer - of_nat (r2 - w_ptr buffer));
            free2 = size_bytes buffer - avail2
        in (buffer\<lparr>r_ptr := r2, avail := avail2, free := free2\<rparr>,
            [NOTIFIER_ID_BUFFER_CONSUME bytes (r_ptr buffer)]))"

text \<open>
  The data-model invariant of a ring buffer: the storage is \<^verbatim>\<open>size\<close> bytes
  from \<^verbatim>\<open>addr\<close>, both cursors lie in it, and the counters agree with the
  cursors (coinciding cursors mean empty or full).
\<close>

definition buffer_wf :: "comp_buffer \<Rightarrow> bool" where
  "buffer_wf b \<longleftrightarrow>
     end_addr b = addr b + unat (size_bytes b) \<and>
     addr b \<le> r_ptr b \<and> r_ptr b < end_addr b \<and>
     addr b \<le> w_ptr b \<and> w_ptr b < end_addr b \<and>
     unat (avail b) + unat (free b) = unat (size_bytes b) \<and>
     (if r_ptr b < w_ptr b then unat (avail b) = w_ptr b - r_ptr b
      else if r_ptr b = w_ptr b then avail b = 0 \<or> avail b = size_bytes b
      else unat (avail b) = unat (size_bytes b) - (r_ptr b - w_ptr b))"

text \<open>
  The part of the invariant that concerns the cursors alone: the storage is
  \<^verbatim>\<open>size\<close> bytes from \<^verbatim>\<open>addr\<close> and both cursors lie in it.
\<close>

definition cursors_in_buffer :: "comp_buffer \<Rightarrow> bool" where
  "cursors_in_buffer b \<longleftrightarrow>
     end_addr b = addr b + unat (size_bytes b) \<and>
     addr b \<le> r_ptr b \<and> r_ptr b < end_addr b \<and>
     addr b \<le> w_ptr b \<and> w_ptr b < end_addr b"

section \<open>Pipelines, the object graph and the collaborators\<close>

text \<open>
  Modelled from the spec: the stream directions, the walk directions, the
  component types and the path-stop status are constants of headers that are
  not part of the sources at hand (\<^verbatim>\<open>ipc/stream.h\<close>, \<^verbatim>\<open>ipc/topology.h\<close>,
  \<^verbatim>\<open>sof/audio/pipeline.h\<close>). The specification names them (playback and
  capture, downstream and upstream, host and DAI endpoints, the "stop"
  outcome of a walk); the numbers are the ones the callers in
  \<^verbatim>\<open>pipeline.c\<close> rely on: a component's stream direction is passed where a
  walk direction is expected, and drivers return the already-set status of
  \<^verbatim>\<open>comp_set_state\<close> where the walk expects the path-stop status.
\<close>

definition SOF_IPC_STREAM_PLAYBACK :: int where "SOF_IPC_STREAM_PLAYBACK = 0"
definition SOF_IPC_STREAM_CAPTURE :: int where "SOF_IPC_STREAM_CAPTURE = 1"
definition PPL_DIR_DOWNSTREAM :: int where "PPL_DIR_DOWNSTREAM = 0"
definition PPL_DIR_UPSTREAM :: int where "PPL_DIR_UPSTREAM = 1"
definition PPL_STATUS_PATH_STOP :: int where "PPL_STATUS_PATH_STOP = 1"
definition SOF_COMP_HOST :: int where "SOF_COMP_HOST = 1"
definition SOF_COMP_DAI :: int where "SOF_COMP_DAI = 2"
definition SOF_COMP_VOLUME :: int where "SOF_COMP_VOLUME = 5"
definition SOF_COMP_MIXER :: int where "SOF_COMP_MIXER = 6"

datatype comp_endpoint_type = COMP_ENDPOINT_HOST | COMP_ENDPOINT_DAI | COMP_ENDPOINT_NODE

text \<open>
  Modelled from the spec: \<^verbatim>\<open>struct pipeline\<close> is declared in
  \<^verbatim>\<open>sof/audio/pipeline.h\<close>, which is not among the sources. The fields are
  those of the data model of the specification, under the names
  \<^verbatim>\<open>pipeline.c\<close> uses: the scheduling component, the source and the sink
  endpoint (\<^verbatim>\<open>NULL\<close> until the pipeline is completed), the status, the pending
  XRUN byte count and the periodic task (\<^verbatim>\<open>NULL\<close> until first prepared).
\<close>

record pipeline =
  sched_comp :: nat
  source_comp :: "nat option"
  sink_comp :: "nat option"
  status :: int
  xrun_bytes :: int
  pipe_task :: "nat option"

text \<open>
  The object graph: the memory that holds every component, buffer and pipeline,
  addressed by handle. A C pointer is a handle; storing through a pointer is an
  update of the table at that handle.
\<close>

record world =
  comps :: "nat \<Rightarrow> comp_dev"
  buffers :: "nat \<Rightarrow> comp_buffer"
  pipes :: "nat \<Rightarrow> pipeline"

text \<open>
  What the engine asks of its collaborators, in call order: the driver hooks
  of a component (with the value the hook returned), the scheduler, the
  allocator and the host notification. \<^verbatim>\<open>pipeline_schedule_copy\<close> and
  \<^verbatim>\<open>pipeline_schedule_cancel\<close> are called with the pipeline,
  \<^verbatim>\<open>schedule_task_free\<close> with the task; \<^verbatim>\<open>rfree\<close> is called with a task or
  with a pipeline.
\<close>

datatype heap_block = TaskBlock nat | PipelineBlock nat

datatype event =
    CompTrigger nat int int
  | CompPrepare nat int
  | CompReset nat int
  | CompCopy nat int
  | PipelineTaskInit nat
  | ScheduleTask nat
  | ScheduleTaskCancel nat
  | ScheduleTaskFree nat
  | Rfree heap_block
  | PlatformHostTimestamp nat
  | IpcStreamSendXrun nat int nat

text \<open>
  The collaborators. A driver hook receives the component handle and the object
  graph and returns its \<^verbatim>\<open>int\<close> result and the graph as it left it.
  \<^verbatim>\<open>trigger\<close> and \<^verbatim>\<open>copy\<close> are mandatory (the source asserts them),
  \<^verbatim>\<open>prepare\<close> and \<^verbatim>\<open>reset\<close> may be absent. \<open>task_init\<close> is the outcome of
  \<^verbatim>\<open>pipeline_task_init\<close> for a pipeline: the new task, or \<^verbatim>\<open>NULL\<close> when the
  allocation or the scheduler initialisation fails. \<^verbatim>\<open>buffer_reset_pos\<close> is an
  inline function of \<^verbatim>\<open>buffer.h\<close>, which is not among the sources; it acts
  on one buffer and is taken as given.
\<close>

record env =
  ops_trigger :: "nat \<Rightarrow> (int \<Rightarrow> world \<Rightarrow> int \<times> world) option"
  ops_prepare :: "nat \<Rightarrow> (world \<Rightarrow> int \<times> world) option"
  ops_reset :: "nat \<Rightarrow> (world \<Rightarrow> int \<times> world) option"
  ops_copy :: "nat \<Rightarrow> (world \<Rightarrow> int \<times> world) option"
  task_init :: "nat \<Rightarrow> nat option"
  buffer_reset_pos :: "comp_buffer \<Rightarrow> comp_buffer"

text \<open>
  A call returns its \<^verbatim>\<open>int\<close> result, the object graph after the call and the
  events of the call. \<open>None\<close> stands for no normal return: the recursion did not
  finish within the given depth, a \<^verbatim>\<open>NULL\<close> pointer was dereferenced, or an
  assertion failed.
\<close>

type_synonym result = "(int \<times> world \<times> event list) option"

subsection \<open>Inline helpers of the component API\<close>

definition comp_buffer_list :: "comp_dev \<Rightarrow> int \<Rightarrow> nat list" where
  "comp_buffer_list cdev dir =
     (if dir = PPL_DIR_DOWNSTREAM then bsink_list cdev else bsource_list cdev)"

text \<open>
  Modelled from the spec: \<^verbatim>\<open>buffer_get_comp\<close> is a macro of \<^verbatim>\<open>buffer.h\<close>. A
  downstream walk follows the sink link of a buffer, an upstream walk its
  source link.
\<close>

definition buffer_get_comp :: "comp_buffer \<Rightarrow> int \<Rightarrow> nat option" where
  "buffer_get_comp buffer dir =
     (if dir = PPL_DIR_DOWNSTREAM then sink buffer else source buffer)"

definition comp_is_single_pipeline :: "comp_dev \<Rightarrow> comp_dev \<Rightarrow> bool" where
  "comp_is_single_pipeline current previous \<longleftrightarrow>
     comp_pipeline_id current = comp_pipeline_id previous"

definition comp_is_active :: "comp_dev \<Rightarrow> bool" where
  "comp_is_active current \<longleftrightarrow> state current = COMP_STATE_ACTIVE"

definition comp_get_endpoint_type :: "comp_dev \<Rightarrow> comp_endpoint_type" where
  "comp_get_endpoint_type dev =
     (if comp_type dev = SOF_COMP_HOST then COMP_ENDPOINT_HOST
      else if comp_type dev = SOF_COMP_DAI then COMP_ENDPOINT_DAI
      else COMP_ENDPOINT_NODE)"

text \<open>
  Modelled from the spec: \<^verbatim>\<open>pipeline_is_same_sched_comp\<close> is an inline
  function of \<^verbatim>\<open>pipeline.h\<close>. Two pipelines scheduled by the same component
  are one domain for propagation.
\<close>

definition pipeline_is_same_sched_comp :: "pipeline \<Rightarrow> pipeline \<Rightarrow> bool" where
  "pipeline_is_same_sched_comp current previous \<longleftrightarrow>
     sched_comp current = sched_comp previous"

definition comp_trigger :: "env \<Rightarrow> nat \<Rightarrow> int \<Rightarrow> world \<Rightarrow> result" where
  "comp_trigger e dev cmd w =
     (case ops_trigger e dev of
        None \<Rightarrow> None
      | Some hook \<Rightarrow> (case hook cmd w of (r, w') \<Rightarrow> Some (r, w', [CompTrigger dev cmd r])))"

definition comp_prepare :: "env \<Rightarrow> nat \<Rightarrow> world \<Rightarrow> result" where
  "comp_prepare e dev w =
     (case ops_prepare e dev of
        None \<Rightarrow> Some (0, w, [])
      | Some hook \<Rightarrow> (case hook w of (r, w') \<Rightarrow> Some (r, w', [CompPrepare dev r])))"

definition comp_copy :: "env \<Rightarrow> nat \<Rightarrow> world \<Rightarrow> result" where
  "comp_copy e dev w =
     (case ops_copy e dev of
        None \<Rightarrow> None
      | Some hook \<Rightarrow> (case hook w of (r, w') \<Rightarrow> Some (r, w', [CompCopy dev r])))"

definition comp_reset :: "env \<Rightarrow> nat \<Rightarrow> world \<Rightarrow> result" where
  "comp_reset e dev w =
     (case ops_reset e dev of
        None \<Rightarrow> Some (0, w, [])
      | Some hook \<Rightarrow> (case hook w of (r, w') \<Rightarrow> Some (r, w', [CompReset dev r])))"

section \<open>The graph walk\<close>

text \<open>
  \<^verbatim>\<open>pipeline_for_each_comp\<close>. The loop runs over the buffer list of \<open>current\<close>
  in list order; \<open>err\<close> is the local of that name, 0 before the first
  iteration. \<open>buff_func\<close> acts on the buffer; a buffer that is not connected on
  the far side is passed over; a negative result of \<open>func\<close> leaves the loop.
  All callers pass a \<open>func\<close>.
\<close>

primrec for_each_buffer ::
  "(nat \<Rightarrow> world \<Rightarrow> result) \<Rightarrow> (comp_buffer \<Rightarrow> comp_buffer) option \<Rightarrow> int
     \<Rightarrow> nat list \<Rightarrow> int \<Rightarrow> world \<Rightarrow> result" where
  "for_each_buffer func buff_func dir [] err w = Some (err, w, [])"
| "for_each_buffer func buff_func dir (buffer # clist) err w =
     (let w1 = (case buff_func of
                  None \<Rightarrow> w
                | Some f \<Rightarrow> w\<lparr>buffers := (buffers w)(buffer := f (buffers w buffer))\<rparr>)
      in case buffer_get_comp (buffers w1 buffer) dir of
           None \<Rightarrow> for_each_buffer func buff_func dir clist err w1
         | Some buffer_comp \<Rightarrow>
             (case func buffer_comp w1 of
                None \<Rightarrow> None
              | Some (err1, w2, ev1) \<Rightarrow>
                  if err1 < 0 then Some (err1, w2, ev1)
                  else (case for_each_buffer func buff_func dir clist err1 w2 of
                          None \<Rightarrow> None
                        | Some (err2, w3, ev2) \<Rightarrow> Some (err2, w3, ev1 @ ev2))))"

definition pipeline_for_each_comp ::
  "nat \<Rightarrow> (nat \<Rightarrow> world \<Rightarrow> result) \<Rightarrow> (comp_buffer \<Rightarrow> comp_buffer) option \<Rightarrow> int
     \<Rightarrow> world \<Rightarrow> result" where
  "pipeline_for_each_comp current func buff_func dir w =
     for_each_buffer func buff_func dir (comp_buffer_list (comps w current) dir) 0 w"

text \<open>
  The block shared by the prepare and the reset walk for a component of another
  pipeline: the walk stops there when that pipeline ends in the wrong kind of
  endpoint for the stream direction. It reads \<^verbatim>\<open>current->pipeline->sink_comp\<close>.
\<close>

definition foreign_pipeline_stop :: "world \<Rightarrow> nat \<Rightarrow> int \<Rightarrow> bool option" where
  "foreign_pipeline_stop w current stream_direction =
     (case pipeline (comps w current) of
        None \<Rightarrow> None
      | Some cp \<Rightarrow>
          (case sink_comp (pipes w cp) of
             None \<Rightarrow> None
           | Some snk \<Rightarrow>
               (let end_type = comp_get_endpoint_type (comps w snk)
                in Some ((stream_direction = SOF_IPC_STREAM_PLAYBACK \<and>
                          (end_type = COMP_ENDPOINT_HOST \<or> end_type = COMP_ENDPOINT_NODE)) \<or>
                         (stream_direction = SOF_IPC_STREAM_CAPTURE \<and>
                          (end_type = COMP_ENDPOINT_DAI \<or> end_type = COMP_ENDPOINT_NODE))))))"

subsection \<open>Prepare\<close>

definition pipeline_comp_task_init :: "env \<Rightarrow> nat \<Rightarrow> world \<Rightarrow> int \<times> world \<times> event list" where
  "pipeline_comp_task_init e p w =
     (if pipe_task (pipes w p) = None then
        (case task_init e p of
           None \<Rightarrow> (- ENOMEM, w, [PipelineTaskInit p])
         | Some t \<Rightarrow> (0, w\<lparr>pipes := (pipes w)(p := (pipes w p)\<lparr>pipe_task := Some t\<rparr>)\<rparr>,
                      [PipelineTaskInit p]))
      else (0, w, []))"

primrec pipeline_comp_prepare ::
  "nat \<Rightarrow> env \<Rightarrow> nat \<Rightarrow> int \<Rightarrow> nat \<Rightarrow> world \<Rightarrow> result" where
  "pipeline_comp_prepare 0 e start dir current w = None"
| "pipeline_comp_prepare (Suc fuel) e start dir current w =
     (case (if comp_is_single_pipeline (comps w current) (comps w start) then Some False
            else foreign_pipeline_stop w current dir) of
        None \<Rightarrow> None
      | Some True \<Rightarrow> Some (0, w, [])
      | Some False \<Rightarrow>
          (case pipeline (comps w current) of
             None \<Rightarrow> None
           | Some cp \<Rightarrow>
               (case pipeline_comp_task_init e cp w of
                  (err0, w0, ev0) \<Rightarrow>
                    if err0 < 0 then Some (err0, w0, ev0)
                    else (case comp_prepare e current w0 of
                            None \<Rightarrow> None
                          | Some (err1, w1, ev1) \<Rightarrow>
                              if err1 < 0 \<or> err1 = PPL_STATUS_PATH_STOP
                              then Some (err1, w1, ev0 @ ev1)
                              else (case pipeline_for_each_comp current
                                           (pipeline_comp_prepare fuel e start dir)
                                           (Some (buffer_reset_pos e)) dir w1 of
                                      None \<Rightarrow> None
                                    | Some (err2, w2, ev2) \<Rightarrow>
                                        Some (err2, w2, ev0 @ ev1 @ ev2))))))"

definition pipeline_prepare :: "nat \<Rightarrow> env \<Rightarrow> nat \<Rightarrow> nat \<Rightarrow> world \<Rightarrow> result" where
  "pipeline_prepare fuel e p dev w =
     (case pipeline_comp_prepare fuel e dev (direction (comps w dev)) dev w of
        None \<Rightarrow> None
      | Some (ret, w1, ev) \<Rightarrow>
          if ret < 0 then Some (ret, w1, ev)
          else Some (ret, w1\<lparr>pipes := (pipes w1)(p := (pipes w1 p)\<lparr>status := COMP_STATE_PREPARE\<rparr>)\<rparr>,
                     ev))"

subsection \<open>Trigger\<close>

definition pipeline_comp_trigger_sched_comp ::
  "nat \<Rightarrow> nat \<Rightarrow> int \<Rightarrow> world \<Rightarrow> world \<times> event list" where
  "pipeline_comp_trigger_sched_comp p cdev cmd w =
     (if sched_comp (pipes w p) \<noteq> cdev \<and>
         (Some p = pipeline (comps w (sched_comp (pipes w p))) \<or>
          sink_comp (pipes w p) \<noteq> Some cdev)
      then (w, [])
      else if cmd = COMP_TRIGGER_PAUSE \<or> cmd = COMP_TRIGGER_STOP \<or> cmd = COMP_TRIGGER_XRUN
      then (w\<lparr>pipes := (pipes w)(p := (pipes w p)\<lparr>status := COMP_STATE_PAUSED\<rparr>)\<rparr>,
            [ScheduleTaskCancel p])
      else if cmd = COMP_TRIGGER_RELEASE \<or> cmd = COMP_TRIGGER_START
      then (w\<lparr>pipes := (pipes w)(p := (pipes w p)\<lparr>status := COMP_STATE_ACTIVE, xrun_bytes := 0\<rparr>)\<rparr>,
            [ScheduleTask p])
      else (w, []))"

primrec pipeline_comp_trigger ::
  "nat \<Rightarrow> env \<Rightarrow> nat \<Rightarrow> int \<Rightarrow> int \<Rightarrow> nat \<Rightarrow> world \<Rightarrow> result" where
  "pipeline_comp_trigger 0 e start cmd dir current w = None"
| "pipeline_comp_trigger (Suc fuel) e start cmd dir current w =
     (case (pipeline (comps w current), pipeline (comps w start)) of
        (Some cp, Some sp) \<Rightarrow>
          (let is_single_ppl = comp_is_single_pipeline (comps w current) (comps w start);
               is_same_sched = pipeline_is_same_sched_comp (pipes w cp) (pipes w sp)
           in if \<not> is_single_ppl \<and> \<not> is_same_sched then Some (0, w, [])
              else (case comp_trigger e current cmd w of
                      None \<Rightarrow> None
                    | Some (err, w1, ev1) \<Rightarrow>
                        if err < 0 \<or> err = PPL_STATUS_PATH_STOP then Some (err, w1, ev1)
                        else (case pipeline (comps w1 current) of
                                None \<Rightarrow> None
                              | Some p \<Rightarrow>
                                  (case pipeline_comp_trigger_sched_comp p current cmd w1 of
                                     (w2, ev2) \<Rightarrow>
                                       (case pipeline_for_each_comp current
                                               (pipeline_comp_trigger fuel e start cmd dir)
                                               None dir w2 of
                                          None \<Rightarrow> None
                                        | Some (err3, w3, ev3) \<Rightarrow>
                                            Some (err3, w3, ev1 @ ev2 @ ev3))))))
      | _ \<Rightarrow> None)"

text \<open>
  \<^verbatim>\<open>pipeline_xrun_handle_trigger\<close>: 0 asks the caller to go on with the
  trigger, the path-stop status tells it that nothing more is needed, a
  negative value is a failure.
\<close>

definition pipeline_xrun_handle_trigger :: "nat \<Rightarrow> env \<Rightarrow> nat \<Rightarrow> int \<Rightarrow> world \<Rightarrow> result" where
  "pipeline_xrun_handle_trigger fuel e p cmd w =
     (if xrun_bytes (pipes w p) = 0 \<or> status (pipes w p) \<noteq> COMP_STATE_PAUSED
      then Some (0, w, [])
      else if cmd = COMP_TRIGGER_START then
        (case source_comp (pipes w p) of
           None \<Rightarrow> None
         | Some src \<Rightarrow>
             (case pipeline_prepare fuel e p src w of
                None \<Rightarrow> None
              | Some (ret, w1, ev) \<Rightarrow>
                  if ret < 0 then Some (ret, w1, ev)
                  else Some (ret, w1\<lparr>pipes := (pipes w1)(p := (pipes w1 p)\<lparr>xrun_bytes := 0\<rparr>)\<rparr>,
                             ev)))
      else if cmd = COMP_TRIGGER_STOP then Some (PPL_STATUS_PATH_STOP, w, [])
      else Some (0, w, []))"

definition pipeline_trigger :: "nat \<Rightarrow> env \<Rightarrow> nat \<Rightarrow> nat \<Rightarrow> int \<Rightarrow> world \<Rightarrow> result" where
  "pipeline_trigger fuel e p host cmd w =
     (if xrun_bytes (pipes w p) \<noteq> 0 then
        (case pipeline_xrun_handle_trigger fuel e p cmd w of
           None \<Rightarrow> None
         | Some (ret, w1, ev1) \<Rightarrow>
             if ret < 0 then Some (ret, w1, ev1)
             else if ret = PPL_STATUS_PATH_STOP then Some (0, w1, ev1)
             else (case pipeline_comp_trigger fuel e host cmd (direction (comps w1 host)) host w1 of
                     None \<Rightarrow> None
                   | Some (ret2, w2, ev2) \<Rightarrow> Some (ret2, w2, ev1 @ ev2)))
      else pipeline_comp_trigger fuel e host cmd (direction (comps w host)) host w)"

subsection \<open>Reset\<close>

primrec pipeline_comp_reset ::
  "nat \<Rightarrow> env \<Rightarrow> nat \<Rightarrow> int \<Rightarrow> nat \<Rightarrow> world \<Rightarrow> result" where
  "pipeline_comp_reset 0 e p dir current w = None"
| "pipeline_comp_reset (Suc fuel) e p dir current w =
     (case source_comp (pipes w p) of
        None \<Rightarrow> None
      | Some src \<Rightarrow>
          (case (if comp_is_single_pipeline (comps w current) (comps w src) then Some False
                 else foreign_pipeline_stop w current dir) of
             None \<Rightarrow> None
           | Some True \<Rightarrow> Some (0, w, [])
           | Some False \<Rightarrow>
               (case comp_reset e current w of
                  None \<Rightarrow> None
                | Some (err, w1, ev1) \<Rightarrow>
                    if err < 0 \<or> err = PPL_STATUS_PATH_STOP then Some (err, w1, ev1)
                    else (case pipeline_for_each_comp current
                                 (pipeline_comp_reset fuel e p dir) None dir w1 of
                            None \<Rightarrow> None
                          | Some (err2, w2, ev2) \<Rightarrow> Some (err2, w2, ev1 @ ev2)))))"

definition pipeline_reset :: "nat \<Rightarrow> env \<Rightarrow> nat \<Rightarrow> nat \<Rightarrow> world \<Rightarrow> result" where
  "pipeline_reset fuel e p host w =
     pipeline_comp_reset fuel e p (direction (comps w host)) host w"

subsection \<open>Copy\<close>

primrec pipeline_comp_copy ::
  "nat \<Rightarrow> env \<Rightarrow> nat \<Rightarrow> int \<Rightarrow> nat \<Rightarrow> world \<Rightarrow> result" where
  "pipeline_comp_copy 0 e start dir current w = None"
| "pipeline_comp_copy (Suc fuel) e start dir current w =
     (if \<not> comp_is_single_pipeline (comps w current) (comps w start) then Some (0, w, [])
      else if \<not> comp_is_active (comps w current) then Some (0, w, [])
      else
        (case (if dir = PPL_DIR_DOWNSTREAM then comp_copy e current w else Some (0, w, [])) of
           None \<Rightarrow> None
         | Some (err1, w1, ev1) \<Rightarrow>
             if dir = PPL_DIR_DOWNSTREAM \<and> (err1 < 0 \<or> err1 = PPL_STATUS_PATH_STOP)
             then Some (err1, w1, ev1)
             else (case pipeline_for_each_comp current
                          (pipeline_comp_copy fuel e start dir) None dir w1 of
                     None \<Rightarrow> None
                   | Some (err2, w2, ev2) \<Rightarrow>
                       if err2 < 0 \<or> err2 = PPL_STATUS_PATH_STOP
                       then Some (err2, w2, ev1 @ ev2)
                       else if dir = PPL_DIR_UPSTREAM then
                         (case comp_copy e current w2 of
                            None \<Rightarrow> None
                          | Some (err3, w3, ev3) \<Rightarrow> Some (err3, w3, ev1 @ ev2 @ ev3))
                       else Some (err2, w2, ev1 @ ev2))))"


subsection \<open>XRUN\<close>

text \<open>
  The position record handed to the host carries the byte count and the id of
  the reporting component; they are the two arguments \<open>xrun_size\<close> and
  \<open>xrun_comp_id\<close>.
\<close>

primrec pipeline_comp_xrun ::
  "nat \<Rightarrow> int \<Rightarrow> nat \<Rightarrow> int \<Rightarrow> nat \<Rightarrow> world \<Rightarrow> result" where
  "pipeline_comp_xrun 0 xrun_size xrun_comp_id dir current w = None"
| "pipeline_comp_xrun (Suc fuel) xrun_size xrun_comp_id dir current w =
     (let ev1 = (if comp_type (comps w current) = SOF_COMP_HOST
                 then [PlatformHostTimestamp current,
                       IpcStreamSendXrun current xrun_size xrun_comp_id]
                 else [])
      in case pipeline_for_each_comp current
                (pipeline_comp_xrun fuel xrun_size xrun_comp_id dir) None dir w of
           None \<Rightarrow> None
         | Some (err, w1, ev2) \<Rightarrow> Some (err, w1, ev1 @ ev2))"

text \<open>\<^verbatim>\<open>pipeline_xrun\<close> returns nothing: the result is the graph and the events.\<close>

definition pipeline_xrun ::
  "nat \<Rightarrow> env \<Rightarrow> nat \<Rightarrow> nat \<Rightarrow> int \<Rightarrow> world \<Rightarrow> (world \<times> event list) option" where
  "pipeline_xrun fuel e p dev bytes w =
     (if xrun_bytes (pipes w p) \<noteq> 0 then Some (w, [])
      else if state (comps w dev) \<noteq> COMP_STATE_ACTIVE then Some (w, [])
      else
        (case source_comp (pipes w p) of
           None \<Rightarrow> None
         | Some src \<Rightarrow>
             (case pipeline_trigger fuel e p src COMP_TRIGGER_XRUN w of
                None \<Rightarrow> None
              | Some (ret, w1, ev1) \<Rightarrow>
                  (let w2 = w1\<lparr>pipes := (pipes w1)(p := (pipes w1 p)\<lparr>xrun_bytes := bytes\<rparr>)\<rparr>
                   in case pipeline_comp_xrun fuel bytes (comp_id (comps w2 dev))
                             (direction (comps w2 dev)) dev w2 of
                        None \<Rightarrow> None
                      | Some (ret3, w3, ev3) \<Rightarrow> Some (w3, ev1 @ ev3)))))"

definition pipeline_xrun_recover :: "nat \<Rightarrow> env \<Rightarrow> nat \<Rightarrow> world \<Rightarrow> result" where
  "pipeline_xrun_recover fuel e p w =
     (case source_comp (pipes w p) of
        None \<Rightarrow> None
      | Some src \<Rightarrow>
          (case pipeline_prepare fuel e p src w of
             None \<Rightarrow> None
           | Some (ret, w1, ev1) \<Rightarrow>
               if ret < 0 then Some (ret, w1, ev1)
               else
                 (let w2 = w1\<lparr>pipes := (pipes w1)(p := (pipes w1 p)\<lparr>xrun_bytes := 0\<rparr>)\<rparr>
                  in case source_comp (pipes w2 p) of
                       None \<Rightarrow> None
                     | Some src2 \<Rightarrow>
                         (case pipeline_trigger fuel e p src2 COMP_TRIGGER_START w2 of
                            None \<Rightarrow> None
                          | Some (ret2, w3, ev2) \<Rightarrow>
                              if ret2 < 0 then Some (ret2, w3, ev1 @ ev2)
                              else Some (0, w3, ev1 @ ev2)))))"

subsection \<open>Free\<close>

text \<open>
  \<^verbatim>\<open>pipeline_comp_free\<close> clears the pipeline pointer of the component, recurses
  and then takes the head of the walked buffer list out of the list
  (\<^verbatim>\<open>list_item_del\<close> on the list head), which leaves the component with an
  empty list. It always returns 0.
\<close>

primrec pipeline_comp_free ::
  "nat \<Rightarrow> nat \<Rightarrow> int \<Rightarrow> nat \<Rightarrow> world \<Rightarrow> result" where
  "pipeline_comp_free 0 start dir current w = None"
| "pipeline_comp_free (Suc fuel) start dir current w =
     (if \<not> comp_is_single_pipeline (comps w current) (comps w start) then Some (0, w, [])
      else
        (let w1 = w\<lparr>comps := (comps w)(current := (comps w current)\<lparr>pipeline := None\<rparr>)\<rparr>
         in case pipeline_for_each_comp current (pipeline_comp_free fuel start dir) None dir w1 of
              None \<Rightarrow> None
            | Some (err, w2, ev) \<Rightarrow>
                Some (0,
                      w2\<lparr>comps := (comps w2)(current :=
                           (if dir = PPL_DIR_DOWNSTREAM
                            then (comps w2 current)\<lparr>bsink_list := []\<rparr>
                            else (comps w2 current)\<lparr>bsource_list := []\<rparr>))\<rparr>,
                      ev)))"


section \<open>Notions used to state the properties\<close>

text \<open>The three components of a result.\<close>

definition ret_of :: "result \<Rightarrow> int option" where
  "ret_of res = map_option fst res"

definition world_of :: "result \<Rightarrow> world option" where
  "world_of res = map_option (\<lambda>r. fst (snd r)) res"

definition events_of :: "result \<Rightarrow> event list option" where
  "events_of res = map_option (\<lambda>r. snd (snd r)) res"

subsection \<open>The playback scenario of the copy walk\<close>



subsection \<open>Failures in the reset walk\<close>

text \<open>
  No reset hook recorded in the events failed; and the shape of the events of
  a walk with result \<open>ret\<close>: either no hook failed and the result is not
  negative, or the events end with the reset hook that failed, the walk
  returns its error, and no hook before it failed.
\<close>

definition reset_hooks_ok :: "event list \<Rightarrow> bool" where
  "reset_hooks_ok evs \<longleftrightarrow> (\<forall>c r. CompReset c r \<in> set evs \<longrightarrow> 0 \<le> r)"

definition stops_at_failure :: "int \<Rightarrow> event list \<Rightarrow> bool" where
  "stops_at_failure ret evs \<longleftrightarrow>
     (0 \<le> ret \<and> reset_hooks_ok evs) \<or>
     (ret < 0 \<and> (\<exists>pre c. evs = pre @ [CompReset c ret] \<and> reset_hooks_ok pre))"

text \<open>No reset hook recorded in the events failed or reported path-stop.\<close>

definition no_reset_stop :: "event list \<Rightarrow> bool" where
  "no_reset_stop evs \<longleftrightarrow>
     (\<forall>c r. CompReset c r \<in> set evs \<longrightarrow> 0 \<le> r \<and> r \<noteq> PPL_STATUS_PATH_STOP)"

subsection \<open>The graph seen by a walk\<close>

text \<open>
  The edges a walk in direction \<open>dir\<close> follows, as pairs (far component,
  component): \<open>c'\<close> is at the far end of a buffer in the list of \<open>c\<close>.
\<close>

definition walk_edges :: "world \<Rightarrow> int \<Rightarrow> (nat \<times> nat) set" where
  "walk_edges w dir =
     {(c', c). \<exists>b \<in> set (comp_buffer_list (comps w c) dir).
                 buffer_get_comp (buffers w b) dir = Some c'}"

text \<open>
  Two object graphs with the same connections, the same pipeline membership
  (the pipeline pointer and the pipeline id of every component) and the same
  pipeline endpoints.
\<close>

definition same_graph :: "world \<Rightarrow> world \<Rightarrow> bool" where
  "same_graph w w' \<longleftrightarrow>
     (\<forall>c. bsource_list (comps w' c) = bsource_list (comps w c) \<and>
          bsink_list (comps w' c) = bsink_list (comps w c) \<and>
          pipeline (comps w' c) = pipeline (comps w c) \<and>
          comp_pipeline_id (comps w' c) = comp_pipeline_id (comps w c)) \<and>
     (\<forall>b. source (buffers w' b) = source (buffers w b) \<and>
          sink (buffers w' b) = sink (buffers w b)) \<and>
     (\<forall>p. source_comp (pipes w' p) = source_comp (pipes w p) \<and>
          sink_comp (pipes w' p) = sink_comp (pipes w p))"

text \<open>
  No driver hook rewires the graph. Every component has a trigger hook and a
  copy hook (the source asserts them); a prepare or a reset hook may be
  absent. The prepare walk also resets the positions of the buffers it
  passes, which leaves their connections alone.
\<close>

definition trigger_hooks_keep_graph :: "env \<Rightarrow> bool" where
  "trigger_hooks_keep_graph e \<longleftrightarrow>
     (\<forall>dev. \<exists>hook. ops_trigger e dev = Some hook \<and>
                   (\<forall>cmd w. same_graph w (snd (hook cmd w))))"

definition copy_hooks_keep_graph :: "env \<Rightarrow> bool" where
  "copy_hooks_keep_graph e \<longleftrightarrow>
     (\<forall>dev. \<exists>hook. ops_copy e dev = Some hook \<and> (\<forall>w. same_graph w (snd (hook w))))"

definition prepare_hooks_keep_graph :: "env \<Rightarrow> bool" where
  "prepare_hooks_keep_graph e \<longleftrightarrow>
     (\<forall>dev hook w. ops_prepare e dev = Some hook \<longrightarrow> same_graph w (snd (hook w))) \<and>
     (\<forall>b. source (buffer_reset_pos e b) = source b \<and> sink (buffer_reset_pos e b) = sink b)"

definition reset_hooks_keep_graph :: "env \<Rightarrow> bool" where
  "reset_hooks_keep_graph e \<longleftrightarrow>
     (\<forall>dev hook w. ops_reset e dev = Some hook \<longrightarrow> same_graph w (snd (hook w)))"

text \<open>
  The start component and every component at the far end of a buffer belong
  to a pipeline (their pipeline pointer is set); and those pipelines are
  completed (their sink endpoint is set).
\<close>

definition pipelines_assigned :: "world \<Rightarrow> int \<Rightarrow> nat \<Rightarrow> bool" where
  "pipelines_assigned w dir start \<longleftrightarrow>
     pipeline (comps w start) \<noteq> None \<and>
     (\<forall>c' c. (c', c) \<in> walk_edges w dir \<longrightarrow> pipeline (comps w c') \<noteq> None)"

definition pipelines_completed :: "world \<Rightarrow> int \<Rightarrow> nat \<Rightarrow> bool" where
  "pipelines_completed w dir start \<longleftrightarrow>
     (\<forall>c cp. (c = start \<or> c \<in> Domain (walk_edges w dir)) \<longrightarrow>
             pipeline (comps w c) = Some cp \<longrightarrow> sink_comp (pipes w cp) \<noteq> None)"

text \<open>
  The pipeline \<open>p\<close> is completed, and the start component and every
  component at the far end of a buffer are members of it (they carry the
  pipeline id of its source component).
\<close>

definition within_pipeline :: "world \<Rightarrow> int \<Rightarrow> nat \<Rightarrow> nat \<Rightarrow> bool" where
  "within_pipeline w dir start p \<longleftrightarrow>
     (\<exists>src. source_comp (pipes w p) = Some src \<and>
        (\<forall>c. c = start \<or> c \<in> Domain (walk_edges w dir) \<longrightarrow>
             comp_is_single_pipeline (comps w c) (comps w src)))"

text \<open>
  How often component \<open>c\<close> was visited, as far as the collaborators can tell:
  the calls of its driver hooks and the XRUN notifications sent for it.
\<close>

definition visits :: "nat \<Rightarrow> event list \<Rightarrow> nat" where
  "visits c evs =
     length (filter (\<lambda>ev. case ev of
                             CompTrigger c' cmd r \<Rightarrow> c' = c
                           | CompPrepare c' r \<Rightarrow> c' = c
                           | CompReset c' r \<Rightarrow> c' = c
                           | CompCopy c' r \<Rightarrow> c' = c
                           | IpcStreamSendXrun c' n i \<Rightarrow> c' = c
                           | _ \<Rightarrow> False) evs)"

text \<open>
  What the free walk leaves of the object graph \<open>w\<close>: the buffers are as
  they were, and the buffer list of a component in the direction of the walk
  is as it was or has been emptied.
\<close>

definition partly_freed :: "world \<Rightarrow> int \<Rightarrow> world \<Rightarrow> bool" where
  "partly_freed w dir w1 \<longleftrightarrow>
     buffers w1 = buffers w \<and>
     (\<forall>c. comp_buffer_list (comps w1 c) dir = comp_buffer_list (comps w c) dir \<or>
          comp_buffer_list (comps w1 c) dir = [])"

text \<open>
  The number of buffer paths with fewer than \<open>n\<close> buffers that lead from \<open>c\<close> to
  \<open>x\<close> in direction \<open>dir\<close> (the empty path from \<open>x\<close> to itself included).
\<close>

primrec path_count :: "nat \<Rightarrow> world \<Rightarrow> int \<Rightarrow> nat \<Rightarrow> nat \<Rightarrow> nat" where
  "path_count 0 w dir c x = 0"
| "path_count (Suc n) w dir c x =
     (if c = x then 1 else 0) +
     sum_list (map (\<lambda>b. case buffer_get_comp (buffers w b) dir of
                           None \<Rightarrow> 0
                         | Some c' \<Rightarrow> path_count n w dir c' x)
                   (comp_buffer_list (comps w c) dir))"

section \<open>Concrete inputs\<close>

subsection \<open>Driver hooks\<close>

text \<open>
  Driver hooks of the sources, as far as the engine can observe them.
  \<^verbatim>\<open>test_keyword_trigger\<close>, \<^verbatim>\<open>test_keyword_prepare\<close> and
  \<^verbatim>\<open>test_keyword_reset\<close> return what \<^verbatim>\<open>comp_set_state\<close> returns for the
  command (the detector's private counters and its activation threshold are
  not part of the object graph); for a component that is already prepared the
  prepare hook so returns the already-set status, which the walk reads as the
  path-stop status. \<open>idle_copy\<close> is a copy hook that finds nothing to move
  and returns 0.
\<close>

definition test_keyword_trigger :: "nat \<Rightarrow> int \<Rightarrow> world \<Rightarrow> int \<times> world" where
  "test_keyword_trigger dev cmd w =
     (case comp_set_state (comps w dev) cmd of
        (ret, dev') \<Rightarrow> (ret, w\<lparr>comps := (comps w)(dev := dev')\<rparr>))"

definition test_keyword_prepare :: "nat \<Rightarrow> world \<Rightarrow> int \<times> world" where
  "test_keyword_prepare dev w =
     (case comp_set_state (comps w dev) COMP_TRIGGER_PREPARE of
        (ret, dev') \<Rightarrow> (ret, w\<lparr>comps := (comps w)(dev := dev')\<rparr>))"

definition test_keyword_reset :: "nat \<Rightarrow> world \<Rightarrow> int \<times> world" where
  "test_keyword_reset dev w =
     (case comp_set_state (comps w dev) COMP_TRIGGER_RESET of
        (ret, dev') \<Rightarrow> (ret, w\<lparr>comps := (comps w)(dev := dev')\<rparr>))"

definition idle_copy :: "nat \<Rightarrow> world \<Rightarrow> int \<times> world" where
  "idle_copy dev w = (0, w)"

definition driver_env :: env where
  "driver_env =
     \<lparr>ops_trigger = (\<lambda>dev. Some (test_keyword_trigger dev)),
      ops_prepare = (\<lambda>dev. Some (test_keyword_prepare dev)),
      ops_reset = (\<lambda>dev. Some (test_keyword_reset dev)),
      ops_copy = (\<lambda>dev. Some (idle_copy dev)),
      task_init = (\<lambda>p. Some p),
      buffer_reset_pos = (\<lambda>b. b\<lparr>r_ptr := addr b, w_ptr := addr b, avail := 0,
                                  free := size_bytes b\<rparr>)\<rparr>"



text \<open>A component in the READY state, outside any graph.\<close>

definition ready_dev :: comp_dev where
  "ready_dev = \<lparr>state = COMP_STATE_READY, direction = 0, pipeline = None,
                 comp_id = 1, comp_type = 0, comp_pipeline_id = 0,
                 bsource_list = [], bsink_list = []\<rparr>"

text \<open>
  An eight-byte buffer at address 100 that holds three unread bytes, the read
  cursor at offset 5 and the write cursor wrapped to offset 0.
\<close>

definition wrapped_buffer :: comp_buffer where
  "wrapped_buffer = \<lparr>size_bytes = 8, avail = 3, free = 5, addr = 100, end_addr = 108,
                      r_ptr = 105, w_ptr = 100, source = None, sink = None\<rparr>"

text \<open>A component and a buffer that belong to no graph.\<close>

definition unused_dev :: comp_dev where
  "unused_dev = \<lparr>state = COMP_STATE_INIT, direction = 0, pipeline = None,
                  comp_id = 0, comp_type = 0, comp_pipeline_id = 0,
                  bsource_list = [], bsink_list = []\<rparr>"

definition link_buffer :: "nat option \<Rightarrow> nat option \<Rightarrow> comp_buffer" where
  "link_buffer src snk = \<lparr>size_bytes = 8, avail = 0, free = 8, addr = 100, end_addr = 108,
                           r_ptr = 100, w_ptr = 100, source = src, sink = snk\<rparr>"

text \<open>
  A component of type \<open>ty\<close> in state \<open>st\<close> with id \<open>ident\<close>, playback
  direction, a member of the pipeline at handle \<open>ph\<close> (whose pipeline id is
  \<open>ph + 1\<close>), with the given source and sink buffers.
\<close>

definition graph_dev :: "int \<Rightarrow> int \<Rightarrow> nat \<Rightarrow> nat \<Rightarrow> nat list \<Rightarrow> nat list \<Rightarrow> comp_dev" where
  "graph_dev ty st ident ph srcs snks =
     \<lparr>state = st, direction = SOF_IPC_STREAM_PLAYBACK, pipeline = Some ph,
      comp_id = ident, comp_type = ty, comp_pipeline_id = ph + 1,
      bsource_list = srcs, bsink_list = snks\<rparr>"

text \<open>
  The playback chain Host (0) \<open>\<rightarrow>\<close> Volume (1) \<open>\<rightarrow>\<close> DAI (2) of one pipeline,
  connected by the buffers 0 and 1, every component in state \<open>st\<close> and the
  pipeline, scheduled by the DAI, in status \<open>pst\<close> with \<open>xb\<close> pending XRUN
  bytes.
\<close>

definition playback_chain :: "int \<Rightarrow> int \<Rightarrow> int \<Rightarrow> world" where
  "playback_chain st pst xb =
     \<lparr>comps = (\<lambda>c. if c = 0 then graph_dev SOF_COMP_HOST st 10 0 [] [0]
                   else if c = 1 then graph_dev SOF_COMP_VOLUME st 11 0 [0] [1]
                   else if c = 2 then graph_dev SOF_COMP_DAI st 12 0 [1] []
                   else unused_dev),
      buffers = (\<lambda>b. if b = 0 then link_buffer (Some 0) (Some 1)
                     else if b = 1 then link_buffer (Some 1) (Some 2)
                     else link_buffer None None),
      pipes = (\<lambda>p. \<lparr>sched_comp = 2, source_comp = Some 0, sink_comp = Some 2,
                     status = pst, xrun_bytes = xb, pipe_task = Some 0\<rparr>)\<rparr>"


text \<open>
  A graph whose paths rejoin: component 0 feeds the components 1 and 2 through
  the buffers 0 and 1, and both feed the mixer 3 through the buffers 2 and 3.
  All four are prepared members of one pipeline.
\<close>

definition rejoining_graph :: world where
  "rejoining_graph =
     \<lparr>comps = (\<lambda>c. if c = 0 then graph_dev SOF_COMP_HOST COMP_STATE_PREPARE 10 0 [] [0, 1]
                   else if c = 1 then graph_dev SOF_COMP_VOLUME COMP_STATE_PREPARE 11 0 [0] [2]
                   else if c = 2 then graph_dev SOF_COMP_VOLUME COMP_STATE_PREPARE 12 0 [1] [3]
                   else if c = 3 then graph_dev SOF_COMP_MIXER COMP_STATE_PREPARE 13 0 [2, 3] []
                   else unused_dev),
      buffers = (\<lambda>b. if b = 0 then link_buffer (Some 0) (Some 1)
                     else if b = 1 then link_buffer (Some 0) (Some 2)
                     else if b = 2 then link_buffer (Some 1) (Some 3)
                     else if b = 3 then link_buffer (Some 2) (Some 3)
                     else link_buffer None None),
      pipes = (\<lambda>p. \<lparr>sched_comp = 3, source_comp = Some 0, sink_comp = Some 3,
                     status = COMP_STATE_PREPARE, xrun_bytes = 0, pipe_task = Some 0\<rparr>)\<rparr>"

text \<open>
  Two pipelines joined at a mixer. Pipeline 0 is Host (0) \<open>\<rightarrow>\<close> Volume (1); it
  feeds, through buffer 1, the Mixer (2) of pipeline 1, which ends in the
  DAI (3). Pipeline 0 has an XRUN pending: it is PAUSED with 512 bytes
  missing and its components are READY. Pipeline 1 is prepared.
\<close>

definition mixer_topology :: world where
  "mixer_topology =
     \<lparr>comps = (\<lambda>c. if c = 0 then graph_dev SOF_COMP_HOST COMP_STATE_READY 10 0 [] [0]
                   else if c = 1 then graph_dev SOF_COMP_VOLUME COMP_STATE_READY 11 0 [0] [1]
                   else if c = 2 then graph_dev SOF_COMP_MIXER COMP_STATE_PREPARE 12 1 [1] [2]
                   else if c = 3 then graph_dev SOF_COMP_DAI COMP_STATE_PREPARE 13 1 [2] []
                   else unused_dev),
      buffers = (\<lambda>b. if b = 0 then link_buffer (Some 0) (Some 1)
                     else if b = 1 then link_buffer (Some 1) (Some 2)
                     else if b = 2 then link_buffer (Some 2) (Some 3)
                     else link_buffer None None),
      pipes = (\<lambda>p. if p = 0
                    then \<lparr>sched_comp = 0, source_comp = Some 0, sink_comp = Some 1,
                          status = COMP_STATE_PAUSED, xrun_bytes = - 512, pipe_task = Some 0\<rparr>
                    else \<lparr>sched_comp = 3, source_comp = Some 2, sink_comp = Some 3,
                          status = COMP_STATE_PREPARE, xrun_bytes = 0, pipe_task = Some 1\<rparr>)\<rparr>"

text \<open>
  The same hooks, except that the reset hook of component 1 fails
  with \<^verbatim>\<open>-EINVAL\<close>.
\<close>

definition failing_reset_env :: env where
  "failing_reset_env =
     driver_env\<lparr>ops_reset :=
        (\<lambda>dev. if dev = 1 then Some (\<lambda>w. (- EINVAL, w))
               else Some (test_keyword_reset dev))\<rparr>"

section \<open>Collected definitions\<close>

lemmas comp_state_defs =
  COMP_STATE_INIT_def COMP_STATE_READY_def COMP_STATE_SUSPEND_def
  COMP_STATE_PREPARE_def COMP_STATE_PAUSED_def COMP_STATE_ACTIVE_def

lemmas comp_trigger_defs =
  COMP_TRIGGER_STOP_def COMP_TRIGGER_START_def COMP_TRIGGER_PAUSE_def
  COMP_TRIGGER_RELEASE_def COMP_TRIGGER_SUSPEND_def COMP_TRIGGER_RESUME_def
  COMP_TRIGGER_RESET_def COMP_TRIGGER_PREPARE_def COMP_TRIGGER_XRUN_def



section \<open>The state machine law\<close>


text \<open>
  C1. For each of the five states and each of the seven commands,
  \<^verbatim>\<open>comp_set_state\<close> has exactly the outcome the transition table gives: the
  new state of the table with result 0, or the already-set status with the
  device untouched when the requested state is the current one, or
  \<^verbatim>\<open>-EINVAL\<close> with the device untouched. The three results 0, 1 and
  \<^verbatim>\<open>-EINVAL\<close> are pairwise different, so exactly one outcome applies.
\<close>

theorem comp_set_state_table:
  assumes "state dev \<in> fsm_states" and "c \<in> fsm_commands"
  shows "(case spec_set_state (state dev) c of
            NewState s' \<Rightarrow> comp_set_state dev c = (0, dev\<lparr>state := s'\<rparr>)
          | AlreadySet \<Rightarrow> comp_set_state dev c = (COMP_STATUS_STATE_ALREADY_SET, dev)
          | InvalidState \<Rightarrow> comp_set_state dev c = (- EINVAL, dev))
         \<and> COMP_STATUS_STATE_ALREADY_SET \<noteq> 0 \<and> - EINVAL \<noteq> 0
         \<and> - EINVAL \<noteq> COMP_STATUS_STATE_ALREADY_SET"
  using assms
  by (auto simp: fsm_states_def fsm_commands_def spec_set_state_def
      table_new_state_def table_prior_ok_def comp_set_state_def
      comp_get_requested_state_def comp_state_defs comp_trigger_defs
      COMP_STATUS_STATE_ALREADY_SET_def EINVAL_def)

theorem comp_set_state_table_witness:
  "state ready_dev \<in> fsm_states \<and> COMP_TRIGGER_PREPARE \<in> fsm_commands \<and>
   comp_set_state ready_dev COMP_TRIGGER_PREPARE = (0, ready_dev\<lparr>state := COMP_STATE_PREPARE\<rparr>)"
  using comp_set_state_table [of ready_dev COMP_TRIGGER_PREPARE]
  by (simp add: ready_dev_def fsm_states_def fsm_commands_def spec_set_state_def
      table_new_state_def table_prior_ok_def comp_state_defs comp_trigger_defs)

section \<open>Ring buffer laws\<close>

subsection \<open>The invariant is kept by every transfer that fits the buffer\<close>

lemma unat_of_nat_small:
  fixes s :: "32 word"
  assumes "k \<le> unat s"
  shows "unat (of_nat k :: 32 word) = k"
proof -
  have "unat s < 2 ^ LENGTH(32)" by (rule unsigned_less)
  with assms have "k < 2 ^ LENGTH(32)" by simp
  then show ?thesis by (simp add: unat_of_nat)
qed

lemma unat_size_minus:
  fixes s :: "32 word"
  assumes "k \<le> unat s"
  shows "unat (s - of_nat k) = unat s - k"
proof -
  have k: "unat (of_nat k :: 32 word) = k" using assms by (rule unat_of_nat_small)
  then have "(of_nat k :: 32 word) \<le> s" using assms by (simp add: word_le_nat_alt)
  then show ?thesis using k by (simp add: unat_sub)
qed

text \<open>
  Counters recomputed from cursors that lie in the storage satisfy the
  invariant, whatever is reported for coinciding cursors.
\<close>

lemma recomputed_wf:
  assumes e: "end_addr b = addr b + unat (size_bytes b)"
    and r: "addr b \<le> r" "r < end_addr b" and w: "addr b \<le> w" "w < end_addr b"
    and full: "full = 0 \<or> full = size_bytes b"
    and av: "av = (if r < w then of_nat (w - r)
                   else if r = w then full
                   else size_bytes b - of_nat (r - w))"
  shows "buffer_wf (b\<lparr>r_ptr := r, w_ptr := w, avail := av, free := size_bytes b - av\<rparr>)"
proof -
  let ?s = "unat (size_bytes b)"
  consider (lt) "r < w" | (eq) "r = w" | (gt) "w < r" by linarith
  then show ?thesis
  proof cases
    case lt
    then have k: "w - r \<le> ?s" using e r w by linarith
    have a: "av = of_nat (w - r)" using av lt by simp
    have ua: "unat av = w - r" unfolding a using k by (rule unat_of_nat_small)
    have uf: "unat (size_bytes b - av) = ?s - (w - r)" unfolding a using k by (rule unat_size_minus)
    show ?thesis using e r w lt ua uf k by (simp add: buffer_wf_def)
  next
    case eq
    then have a: "av = full" using av by simp
    from full have "unat av + unat (size_bytes b - av) = ?s" unfolding a by auto
    then show ?thesis using e r w eq a full by (simp add: buffer_wf_def)
  next
    case gt
    then have k: "r - w \<le> ?s" using e r w by linarith
    have a: "av = size_bytes b - of_nat (r - w)" using av gt by simp
    have ua: "unat av = ?s - (r - w)" unfolding a using k by (rule unat_size_minus)
    then have "av \<le> size_bytes b" by (simp add: word_le_nat_alt)
    then have uf: "unat (size_bytes b - av) = ?s - unat av" by (simp add: unat_sub)
    show ?thesis using e r w gt ua uf k by (simp add: buffer_wf_def)
  qed
qed

lemma wrapped_in_range:
  fixes a s c n :: nat
  assumes "a \<le> c" "c < a + s" "n \<le> s"
  shows "a \<le> (if c + n \<ge> a + s then a + (c + n - (a + s)) else c + n)"
    and "(if c + n \<ge> a + s then a + (c + n - (a + s)) else c + n) < a + s"
  using assms by auto

lemma produce_keeps_wf:
  assumes wf: "buffer_wf b" and n: "n \<le> size_bytes b"
  shows "buffer_wf (fst (comp_update_buffer_produce b n))"
proof (cases "n = 0")
  case True
  with wf show ?thesis by (simp add: comp_update_buffer_produce_def)
next
  case False
  from n have ns: "unat n \<le> unat (size_bytes b)" by (simp add: word_le_nat_alt)
  from wf have e: "end_addr b = addr b + unat (size_bytes b)"
    and r: "addr b \<le> r_ptr b" "r_ptr b < end_addr b"
    and w: "addr b \<le> w_ptr b" "w_ptr b < end_addr b"
    by (simp_all add: buffer_wf_def)
  define w2 where "w2 = (if w_ptr b + unat n \<ge> end_addr b
                         then addr b + (w_ptr b + unat n - end_addr b) else w_ptr b + unat n)"
  define r2 where "r2 = (if free b < n then w2 else r_ptr b)"
  define av where "av = (if r2 < w2 then of_nat (w2 - r2)
                         else if r2 = w2 then size_bytes b
                         else size_bytes b - of_nat (r2 - w2) :: 32 word)"
  have res: "fst (comp_update_buffer_produce b n) =
      b\<lparr>r_ptr := r2, w_ptr := w2, avail := av, free := size_bytes b - av\<rparr>"
    using False by (simp add: comp_update_buffer_produce_def Let_def w2_def r2_def av_def)
  have w2r: "addr b \<le> w2" "w2 < end_addr b"
    using wrapped_in_range [of "addr b" "w_ptr b" "unat (size_bytes b)" "unat n"] w ns
    unfolding w2_def e by simp_all
  have r2r: "addr b \<le> r2" "r2 < end_addr b" using w2r r by (simp_all add: r2_def)
  show ?thesis
    unfolding res
    by (rule recomputed_wf [OF e r2r w2r _ av_def]) simp
qed

lemma consume_keeps_wf:
  assumes wf: "buffer_wf b" and n: "n \<le> size_bytes b"
  shows "buffer_wf (fst (comp_update_buffer_consume b n))"
proof (cases "n = 0")
  case True
  with wf show ?thesis by (simp add: comp_update_buffer_consume_def)
next
  case False
  from n have ns: "unat n \<le> unat (size_bytes b)" by (simp add: word_le_nat_alt)
  from wf have e: "end_addr b = addr b + unat (size_bytes b)"
    and r: "addr b \<le> r_ptr b" "r_ptr b < end_addr b"
    and w: "addr b \<le> w_ptr b" "w_ptr b < end_addr b"
    by (simp_all add: buffer_wf_def)
  define r2 where "r2 = (if r_ptr b + unat n \<ge> end_addr b
                         then addr b + (r_ptr b + unat n - end_addr b) else r_ptr b + unat n)"
  define av where "av = (if r2 < w_ptr b then of_nat (w_ptr b - r2)
                         else if r2 = w_ptr b then 0
                         else size_bytes b - of_nat (r2 - w_ptr b) :: 32 word)"
  have res: "fst (comp_update_buffer_consume b n) =
      b\<lparr>r_ptr := r2, w_ptr := w_ptr b, avail := av, free := size_bytes b - av\<rparr>"
    using False by (simp add: comp_update_buffer_consume_def Let_def r2_def av_def)
  have r2r: "addr b \<le> r2" "r2 < end_addr b"
    using wrapped_in_range [of "addr b" "r_ptr b" "unat (size_bytes b)" "unat n"] r ns
    unfolding r2_def e by simp_all
  show ?thesis
    unfolding res
    by (rule recomputed_wf [OF e r2r w _ av_def]) simp
qed

subsection \<open>Cursors and byte counts after a transfer\<close>

lemma recomputed_sum:
  assumes c: "cursors_in_buffer b"
    and r: "addr b \<le> r" "r < end_addr b" and w: "addr b \<le> w" "w < end_addr b"
    and full: "full = 0 \<or> full = size_bytes b"
    and av: "av = (if r < w then of_nat (w - r)
                   else if r = w then full
                   else size_bytes b - of_nat (r - w))"
  shows "unat av + unat (size_bytes b - av) = unat (size_bytes b)"
proof -
  from c have e: "end_addr b = addr b + unat (size_bytes b)" by (simp add: cursors_in_buffer_def)
  have "buffer_wf (b\<lparr>r_ptr := r, w_ptr := w, avail := av, free := size_bytes b - av\<rparr>)"
    using e r w full av by (rule recomputed_wf)
  then show ?thesis by (simp add: buffer_wf_def)
qed

lemma produce_result:
  assumes "n \<noteq> 0"
  shows "\<exists>r2 w2 av. fst (comp_update_buffer_produce b n) =
           b\<lparr>r_ptr := r2, w_ptr := w2, avail := av, free := size_bytes b - av\<rparr> \<and>
         w2 = (if w_ptr b + unat n \<ge> end_addr b
               then addr b + (w_ptr b + unat n - end_addr b) else w_ptr b + unat n) \<and>
         r2 = (if free b < n then w2 else r_ptr b) \<and>
         av = (if r2 < w2 then of_nat (w2 - r2)
               else if r2 = w2 then size_bytes b
               else size_bytes b - of_nat (r2 - w2))"
  using assms by (simp add: comp_update_buffer_produce_def Let_def)

lemma consume_result:
  assumes "n \<noteq> 0"
  shows "\<exists>r2 av. fst (comp_update_buffer_consume b n) =
           b\<lparr>r_ptr := r2, w_ptr := w_ptr b, avail := av, free := size_bytes b - av\<rparr> \<and>
         r2 = (if r_ptr b + unat n \<ge> end_addr b
               then addr b + (r_ptr b + unat n - end_addr b) else r_ptr b + unat n) \<and>
         av = (if r2 < w_ptr b then of_nat (w_ptr b - r2)
               else if r2 = w_ptr b then 0
               else size_bytes b - of_nat (r2 - w_ptr b))"
  using assms by (simp add: comp_update_buffer_consume_def Let_def)

lemma produce_keeps_cursors:
  assumes c: "cursors_in_buffer b" and n: "n \<le> size_bytes b"
  shows "cursors_in_buffer (fst (comp_update_buffer_produce b n))"
proof (cases "n = 0")
  case True
  with c show ?thesis by (simp add: comp_update_buffer_produce_def)
next
  case False
  from n have ns: "unat n \<le> unat (size_bytes b)" by (simp add: word_le_nat_alt)
  from c have e: "end_addr b = addr b + unat (size_bytes b)"
    and r: "addr b \<le> r_ptr b" "r_ptr b < end_addr b"
    and w: "addr b \<le> w_ptr b" "w_ptr b < end_addr b"
    by (simp_all add: cursors_in_buffer_def)
  from produce_result [OF False, of b] obtain r2 w2 av where
    res: "fst (comp_update_buffer_produce b n) =
           b\<lparr>r_ptr := r2, w_ptr := w2, avail := av, free := size_bytes b - av\<rparr>"
    and w2: "w2 = (if w_ptr b + unat n \<ge> end_addr b
               then addr b + (w_ptr b + unat n - end_addr b) else w_ptr b + unat n)"
    and r2: "r2 = (if free b < n then w2 else r_ptr b)"
    by blast
  have w2r: "addr b \<le> w2" "w2 < end_addr b"
    using wrapped_in_range [of "addr b" "w_ptr b" "unat (size_bytes b)" "unat n"] w ns
    unfolding w2 e by simp_all
  have r2r: "addr b \<le> r2" "r2 < end_addr b" using w2r r by (simp_all add: r2)
  show ?thesis unfolding res using e w2r r2r by (simp add: cursors_in_buffer_def)
qed

lemma consume_keeps_cursors:
  assumes c: "cursors_in_buffer b" and n: "n \<le> size_bytes b"
  shows "cursors_in_buffer (fst (comp_update_buffer_consume b n))"
proof (cases "n = 0")
  case True
  with c show ?thesis by (simp add: comp_update_buffer_consume_def)
next
  case False
  from n have ns: "unat n \<le> unat (size_bytes b)" by (simp add: word_le_nat_alt)
  from c have e: "end_addr b = addr b + unat (size_bytes b)"
    and r: "addr b \<le> r_ptr b" "r_ptr b < end_addr b"
    and w: "addr b \<le> w_ptr b" "w_ptr b < end_addr b"
    by (simp_all add: cursors_in_buffer_def)
  from consume_result [OF False, of b] obtain r2 av where
    res: "fst (comp_update_buffer_consume b n) =
           b\<lparr>r_ptr := r2, w_ptr := w_ptr b, avail := av, free := size_bytes b - av\<rparr>"
    and r2: "r2 = (if r_ptr b + unat n \<ge> end_addr b
               then addr b + (r_ptr b + unat n - end_addr b) else r_ptr b + unat n)"
    by blast
  have r2r: "addr b \<le> r2" "r2 < end_addr b"
    using wrapped_in_range [of "addr b" "r_ptr b" "unat (size_bytes b)" "unat n"] r ns
    unfolding r2 e by simp_all
  show ?thesis unfolding res using e w r2r by (simp add: cursors_in_buffer_def)
qed

lemma consume_keeps_sum:
  assumes c: "cursors_in_buffer b"
    and s: "unat (avail b) + unat (free b) = unat (size_bytes b)"
    and n: "n \<le> size_bytes b"
  shows "unat (avail (fst (comp_update_buffer_consume b n)))
           + unat (free (fst (comp_update_buffer_consume b n)))
         = unat (size_bytes (fst (comp_update_buffer_consume b n)))"
proof (cases "n = 0")
  case True
  with s show ?thesis by (simp add: comp_update_buffer_consume_def)
next
  case False
  from consume_result [OF False, of b] obtain r2 av where
    res: "fst (comp_update_buffer_consume b n) =
           b\<lparr>r_ptr := r2, w_ptr := w_ptr b, avail := av, free := size_bytes b - av\<rparr>"
    and av: "av = (if r2 < w_ptr b then of_nat (w_ptr b - r2)
               else if r2 = w_ptr b then 0
               else size_bytes b - of_nat (r2 - w_ptr b))"
    by blast
  from consume_keeps_cursors [OF c n] have r2r: "addr b \<le> r2" "r2 < end_addr b"
    unfolding res by (simp_all add: cursors_in_buffer_def)
  from c have w: "addr b \<le> w_ptr b" "w_ptr b < end_addr b"
    by (simp_all add: cursors_in_buffer_def)
  have "unat av + unat (size_bytes b - av) = unat (size_bytes b)"
    by (rule recomputed_sum [OF c r2r w _ av]) simp
  then show ?thesis unfolding res by simp
qed

lemma produce_keeps_sum:
  assumes c: "cursors_in_buffer b"
    and s: "unat (avail b) + unat (free b) = unat (size_bytes b)"
  shows "unat (avail (fst (comp_update_buffer_produce b n)))
           + unat (free (fst (comp_update_buffer_produce b n)))
         = unat (size_bytes (fst (comp_update_buffer_produce b n)))"
proof (cases "n = 0")
  case True
  with s show ?thesis by (simp add: comp_update_buffer_produce_def)
next
  case False
  from produce_result [OF False, of b] obtain r2 w2 av where
    res: "fst (comp_update_buffer_produce b n) =
           b\<lparr>r_ptr := r2, w_ptr := w2, avail := av, free := size_bytes b - av\<rparr>"
    and r2: "r2 = (if free b < n then w2 else r_ptr b)"
    and av: "av = (if r2 < w2 then of_nat (w2 - r2)
               else if r2 = w2 then size_bytes b
               else size_bytes b - of_nat (r2 - w2))"
    by blast
  show ?thesis
  proof (cases "n \<le> size_bytes b")
    case True
    from produce_keeps_cursors [OF c True]
    have r2r: "addr b \<le> r2" "r2 < end_addr b" and w2r: "addr b \<le> w2" "w2 < end_addr b"
      unfolding res by (simp_all add: cursors_in_buffer_def)
    have "unat av + unat (size_bytes b - av) = unat (size_bytes b)"
      by (rule recomputed_sum [OF c r2r w2r _ av]) simp
    then show ?thesis unfolding res by simp
  next
    case big: False
    from s have "unat (free b) \<le> unat (size_bytes b)" by simp
    with big have "free b < n" by (simp add: word_less_nat_alt word_le_nat_alt)
    with r2 av have "av = size_bytes b" by simp
    then show ?thesis unfolding res by simp
  qed
qed

subsection \<open>Coinciding cursors\<close>

lemma full_cursors:
  assumes "buffer_wf b" and "free b = 0"
  shows "r_ptr b = w_ptr b \<and> avail b = size_bytes b"
proof -
  let ?s = "unat (size_bytes b)"
  from assms have a: "unat (avail b) = ?s" by (simp add: buffer_wf_def)
  from assms(1) have w: "end_addr b = addr b + ?s" "addr b \<le> r_ptr b" "r_ptr b < end_addr b"
    "addr b \<le> w_ptr b" "w_ptr b < end_addr b"
    and av: "if r_ptr b < w_ptr b then unat (avail b) = w_ptr b - r_ptr b
      else if r_ptr b = w_ptr b then avail b = 0 \<or> avail b = size_bytes b
      else unat (avail b) = ?s - (r_ptr b - w_ptr b)"
    by (simp_all add: buffer_wf_def)
  have "r_ptr b = w_ptr b"
  proof (rule ccontr)
    assume ne: "r_ptr b \<noteq> w_ptr b"
    show False
    proof (cases "r_ptr b < w_ptr b")
      case True
      with av a have "?s = w_ptr b - r_ptr b" by simp
      with w True show False by linarith
    next
      case False
      with ne av a have "?s = ?s - (r_ptr b - w_ptr b)" by simp
      with w False ne show False by linarith
    qed
  qed
  moreover from a have "avail b = size_bytes b" by (simp add: word_unat_eq_iff)
  ultimately show ?thesis by simp
qed

lemma empty_cursors:
  assumes "buffer_wf b" and "avail b = 0"
  shows "r_ptr b = w_ptr b"
proof -
  let ?s = "unat (size_bytes b)"
  from assms(1) have w: "end_addr b = addr b + ?s" "addr b \<le> r_ptr b" "r_ptr b < end_addr b"
    "addr b \<le> w_ptr b" "w_ptr b < end_addr b"
    and av: "if r_ptr b < w_ptr b then unat (avail b) = w_ptr b - r_ptr b
      else if r_ptr b = w_ptr b then avail b = 0 \<or> avail b = size_bytes b
      else unat (avail b) = ?s - (r_ptr b - w_ptr b)"
    by (simp_all add: buffer_wf_def)
  show ?thesis
  proof (rule ccontr)
    assume ne: "r_ptr b \<noteq> w_ptr b"
    show False
    proof (cases "r_ptr b < w_ptr b")
      case True
      with av assms(2) have "0 = w_ptr b - r_ptr b" by simp
      with True show False by linarith
    next
      case False
      with ne av assms(2) have "0 = ?s - (r_ptr b - w_ptr b)" by simp
      with w False ne show False by linarith
    qed
  qed
qed

lemma exact_fill_cursor:
  assumes wf: "buffer_wf b" and n0: "free b \<noteq> 0"
  shows "(if w_ptr b + unat (free b) \<ge> end_addr b
          then addr b + (w_ptr b + unat (free b) - end_addr b) else w_ptr b + unat (free b))
         = r_ptr b"
proof -
  let ?s = "unat (size_bytes b)"
  from wf have w: "end_addr b = addr b + ?s" "addr b \<le> r_ptr b" "r_ptr b < end_addr b"
    "addr b \<le> w_ptr b" "w_ptr b < end_addr b" "unat (avail b) + unat (free b) = ?s"
    and av: "if r_ptr b < w_ptr b then unat (avail b) = w_ptr b - r_ptr b
      else if r_ptr b = w_ptr b then avail b = 0 \<or> avail b = size_bytes b
      else unat (avail b) = ?s - (r_ptr b - w_ptr b)"
    by (simp_all add: buffer_wf_def)
  from n0 have f0: "unat (free b) \<noteq> 0" by (simp add: unat_eq_0)
  show ?thesis
  proof (cases "r_ptr b < w_ptr b")
    case True
    with av have "unat (avail b) = w_ptr b - r_ptr b" by simp
    with w True show ?thesis by auto
  next
    case False
    show ?thesis
    proof (cases "r_ptr b = w_ptr b")
      case True
      with av have "avail b = 0 \<or> avail b = size_bytes b" by simp
      then show ?thesis
      proof
        assume "avail b = 0"
        with w have "unat (free b) = ?s" by simp
        with w True show ?thesis by auto
      next
        assume "avail b = size_bytes b"
        with w have "unat (free b) = 0" by simp
        with f0 show ?thesis by simp
      qed
    next
      case ne: False
      with False av have "unat (avail b) = ?s - (r_ptr b - w_ptr b)" by simp
      with w False ne show ?thesis by auto
    qed
  qed
qed

lemma exact_drain_cursor:
  assumes wf: "buffer_wf b" and n0: "avail b \<noteq> 0"
  shows "(if r_ptr b + unat (avail b) \<ge> end_addr b
          then addr b + (r_ptr b + unat (avail b) - end_addr b) else r_ptr b + unat (avail b))
         = w_ptr b"
proof -
  let ?s = "unat (size_bytes b)"
  from wf have w: "end_addr b = addr b + ?s" "addr b \<le> r_ptr b" "r_ptr b < end_addr b"
    "addr b \<le> w_ptr b" "w_ptr b < end_addr b" "unat (avail b) + unat (free b) = ?s"
    and av: "if r_ptr b < w_ptr b then unat (avail b) = w_ptr b - r_ptr b
      else if r_ptr b = w_ptr b then avail b = 0 \<or> avail b = size_bytes b
      else unat (avail b) = ?s - (r_ptr b - w_ptr b)"
    by (simp_all add: buffer_wf_def)
  show ?thesis
  proof (cases "r_ptr b < w_ptr b")
    case True
    with av have "unat (avail b) = w_ptr b - r_ptr b" by simp
    with w True show ?thesis by auto
  next
    case False
    show ?thesis
    proof (cases "r_ptr b = w_ptr b")
      case True
      with av n0 have "avail b = size_bytes b" by simp
      with w True show ?thesis by auto
    next
      case ne: False
      with False av have "unat (avail b) = ?s - (r_ptr b - w_ptr b)" by simp
      with w False ne show ?thesis by auto
    qed
  qed
qed

text \<open>The whole buffer after an exact fill and after an exact drain.\<close>

lemma exact_fill_result:
  assumes "buffer_wf b"
  shows "fst (comp_update_buffer_produce b (free b))
           = b\<lparr>w_ptr := r_ptr b, avail := size_bytes b, free := 0\<rparr>"
proof (cases "free b = 0")
  case True
  from full_cursors [OF assms True] have "r_ptr b = w_ptr b" "avail b = size_bytes b" by simp_all
  then have "b\<lparr>w_ptr := r_ptr b, avail := size_bytes b, free := 0\<rparr> = b"
    using True by simp
  with True show ?thesis by (simp add: comp_update_buffer_produce_def)
next
  case False
  from exact_fill_cursor [OF assms False] False show ?thesis
    by (simp add: comp_update_buffer_produce_def Let_def)
qed

lemma exact_drain_result:
  assumes "buffer_wf b"
  shows "fst (comp_update_buffer_consume b (avail b))
           = b\<lparr>r_ptr := w_ptr b, avail := 0, free := size_bytes b\<rparr>"
proof (cases "avail b = 0")
  case True
  from assms True have "unat (free b) = unat (size_bytes b)" by (simp add: buffer_wf_def)
  then have f: "free b = size_bytes b" by (simp add: word_unat_eq_iff)
  from empty_cursors [OF assms True] have r: "r_ptr b = w_ptr b" .
  have "b\<lparr>r_ptr := w_ptr b, avail := 0, free := size_bytes b\<rparr> = b"
    unfolding r [symmetric] True [symmetric] f [symmetric] by simp
  with True show ?thesis by (simp add: comp_update_buffer_consume_def)
next
  case False
  from exact_drain_cursor [OF assms False] False show ?thesis
    by (simp add: comp_update_buffer_consume_def Let_def)
qed

subsection \<open>Where the read cursor lands after an overrun\<close>

lemma mod_wrap:
  fixes x s :: nat
  assumes "s \<le> x" "x < 2 * s"
  shows "x mod s = x - s"
  using assms by (metis le_mod_geq mod_less add_diff_inverse_nat less_diff_conv2 mult_2 not_less)

lemma overrun_cursor:
  assumes wf: "buffer_wf b" and n: "free b < n" "n \<le> size_bytes b"
  shows "r_ptr (fst (comp_update_buffer_produce b n)) - addr b
     = (r_ptr b - addr b + (unat n - unat (free b))) mod unat (size_bytes b)"
proof -
  let ?s = "unat (size_bytes b)"
  from n have n0: "n \<noteq> 0" by (metis word_not_simps(1))
  from n have fn: "unat (free b) < unat n" "unat n \<le> ?s"
    by (simp_all add: word_less_nat_alt word_le_nat_alt)
  from wf have w: "end_addr b = addr b + ?s" "addr b \<le> r_ptr b" "r_ptr b < end_addr b"
    "addr b \<le> w_ptr b" "w_ptr b < end_addr b" "unat (avail b) + unat (free b) = ?s"
    and av: "if r_ptr b < w_ptr b then unat (avail b) = w_ptr b - r_ptr b
      else if r_ptr b = w_ptr b then avail b = 0 \<or> avail b = size_bytes b
      else unat (avail b) = ?s - (r_ptr b - w_ptr b)"
    by (simp_all add: buffer_wf_def)
  let ?w1 = "w_ptr b + unat n"
  let ?w2 = "if ?w1 \<ge> end_addr b then addr b + (?w1 - end_addr b) else ?w1"
  have r2: "r_ptr (fst (comp_update_buffer_produce b n)) = ?w2"
    using n0 n(1) by (simp add: comp_update_buffer_produce_def Let_def)
  let ?x = "r_ptr b - addr b + (unat n - unat (free b))"
  have disp: "w_ptr b - addr b + unat n = (r_ptr b - addr b) + (unat n - unat (free b)) \<or>
              w_ptr b - addr b + unat n = (r_ptr b - addr b) + (unat n - unat (free b)) + ?s"
  proof (cases "r_ptr b < w_ptr b")
    case True
    with av have "unat (avail b) = w_ptr b - r_ptr b" by simp
    with w fn True show ?thesis by linarith
  next
    case False
    show ?thesis
    proof (cases "r_ptr b = w_ptr b")
      case True
      with av have "avail b = 0 \<or> avail b = size_bytes b" by simp
      then show ?thesis
      proof
        assume "avail b = 0"
        with w have "unat (free b) = ?s" by simp
        with fn show ?thesis by simp
      next
        assume "avail b = size_bytes b"
        with w have "unat (free b) = 0" by simp
        with True show ?thesis by simp
      qed
    next
      case ne: False
      with False av have "unat (avail b) = ?s - (r_ptr b - w_ptr b)" by simp
      with w fn False ne show ?thesis by linarith
    qed
  qed
  have "?w2 - addr b = ?x mod ?s"
  proof (cases "?w1 \<ge> end_addr b")
    case True
    then have lhs: "?w2 - addr b = w_ptr b - addr b + unat n - ?s" using w by simp
    have x_lt: "w_ptr b - addr b + unat n < 2 * ?s" using w fn by linarith
    have ge: "?s \<le> w_ptr b - addr b + unat n" using True w by linarith
    from disp show ?thesis
    proof
      assume e: "w_ptr b - addr b + unat n = ?x"
      with ge x_lt have "?x mod ?s = ?x - ?s" by (simp add: mod_wrap)
      with lhs e show ?thesis by simp
    next
      assume e: "w_ptr b - addr b + unat n = ?x + ?s"
      with x_lt have "?x < ?s" by linarith
      then have "?x mod ?s = ?x" by simp
      with lhs e show ?thesis by simp
    qed
  next
    case False
    then have lhs: "?w2 - addr b = w_ptr b - addr b + unat n" using w by simp
    have lt: "w_ptr b - addr b + unat n < ?s" using False w by linarith
    from disp show ?thesis
    proof
      assume e: "w_ptr b - addr b + unat n = ?x"
      with lt have "?x mod ?s = ?x" by simp
      with lhs e show ?thesis by simp
    next
      assume e: "w_ptr b - addr b + unat n = ?x + ?s"
      with lt show ?thesis by linarith
    qed
  qed
  with r2 show ?thesis by simp
qed

subsection \<open>The claims\<close>

text \<open>
  C2. Overrun: a produce of \<open>n\<close> bytes with \<open>n\<close> non-zero and greater than the
  free space leaves the read cursor on the write cursor and reports the buffer
  full (\<open>avail = size\<close>, \<open>free = 0\<close>). Of the bytes that were unread or were
  written by the call, \<open>avail + n\<close>, only \<open>size\<close> remain readable: the number
  lost is \<open>n - free\<close>, the free space being the one before the call. They are
  the oldest ones: on a buffer that satisfies the data-model invariant, and for
  \<open>n\<close> up to the size of the buffer, the read cursor has moved forward by
  \<open>n - free\<close> bytes, modulo the size.
\<close>

theorem produce_overrun:
  assumes "n \<noteq> 0" and "free b < n"
  shows "r_ptr (fst (comp_update_buffer_produce b n)) = w_ptr (fst (comp_update_buffer_produce b n))
       \<and> avail (fst (comp_update_buffer_produce b n)) = size_bytes (fst (comp_update_buffer_produce b n))
       \<and> free (fst (comp_update_buffer_produce b n)) = 0
       \<and> (unat (avail b) + unat (free b) = unat (size_bytes b) \<longrightarrow>
            unat (avail b) + unat n - unat (avail (fst (comp_update_buffer_produce b n)))
              = unat n - unat (free b))
       \<and> (buffer_wf b \<and> n \<le> size_bytes b \<longrightarrow>
            r_ptr (fst (comp_update_buffer_produce b n)) - addr b
              = (r_ptr b - addr b + (unat n - unat (free b))) mod unat (size_bytes b))"
proof (intro conjI impI)
  show "r_ptr (fst (comp_update_buffer_produce b n)) = w_ptr (fst (comp_update_buffer_produce b n))"
    using assms by (simp add: comp_update_buffer_produce_def Let_def)
  show "avail (fst (comp_update_buffer_produce b n)) = size_bytes (fst (comp_update_buffer_produce b n))"
    using assms by (simp add: comp_update_buffer_produce_def Let_def)
  show "free (fst (comp_update_buffer_produce b n)) = 0"
    using assms by (simp add: comp_update_buffer_produce_def Let_def)
next
  assume "unat (avail b) + unat (free b) = unat (size_bytes b)"
  then show "unat (avail b) + unat n - unat (avail (fst (comp_update_buffer_produce b n)))
              = unat n - unat (free b)"
    using assms by (simp add: comp_update_buffer_produce_def Let_def)
next
  assume "buffer_wf b \<and> n \<le> size_bytes b"
  then show "r_ptr (fst (comp_update_buffer_produce b n)) - addr b
              = (r_ptr b - addr b + (unat n - unat (free b))) mod unat (size_bytes b)"
    using overrun_cursor assms(2) by blast
qed

theorem produce_overrun_witness:
  "(6 :: 32 word) \<noteq> 0 \<and> free wrapped_buffer < 6 \<and>
   unat (avail wrapped_buffer) + unat (free wrapped_buffer) = unat (size_bytes wrapped_buffer) \<and>
   buffer_wf wrapped_buffer \<and> 6 \<le> size_bytes wrapped_buffer \<and>
   r_ptr wrapped_buffer = 105 \<and>
   r_ptr (fst (comp_update_buffer_produce wrapped_buffer 6)) = 106 \<and>
   w_ptr (fst (comp_update_buffer_produce wrapped_buffer 6)) = 106 \<and>
   avail (fst (comp_update_buffer_produce wrapped_buffer 6)) = 8 \<and>
   unat (avail wrapped_buffer) + unat (6 :: 32 word)
     - unat (avail (fst (comp_update_buffer_produce wrapped_buffer 6))) = 1"
  using produce_overrun [of 6 wrapped_buffer]
  by (simp add: wrapped_buffer_def buffer_wf_def comp_update_buffer_produce_def Let_def)

text \<open>
  C3, as the specification states it, fails for a consume of more bytes than
  the buffer holds. The eight-byte buffer has its cursors in the storage and
  counters that add up to the size; a consume of 12 bytes leaves the read
  cursor at address 109, past the end of the storage at 108, and the counters
  \<open>avail = 4294967295\<close> and \<open>free = 9\<close>: as byte counts they add up to
  4294967304, not to 8.
\<close>

theorem consume_beyond_size_breaks_sum:
  "cursors_in_buffer wrapped_buffer \<and>
   unat (avail wrapped_buffer) + unat (free wrapped_buffer) = unat (size_bytes wrapped_buffer) \<and>
   avail (fst (comp_update_buffer_consume wrapped_buffer 12)) = 4294967295 \<and>
   free (fst (comp_update_buffer_consume wrapped_buffer 12)) = 9 \<and>
   size_bytes (fst (comp_update_buffer_consume wrapped_buffer 12)) = 8 \<and>
   r_ptr (fst (comp_update_buffer_consume wrapped_buffer 12)) = 109 \<and>
   end_addr (fst (comp_update_buffer_consume wrapped_buffer 12)) = 108 \<and>
   unat (avail (fst (comp_update_buffer_consume wrapped_buffer 12)))
     + unat (free (fst (comp_update_buffer_consume wrapped_buffer 12))) = 4294967304"
proof (intro conjI)
  show "cursors_in_buffer wrapped_buffer"
    by (simp add: wrapped_buffer_def cursors_in_buffer_def)
  show "unat (avail wrapped_buffer) + unat (free wrapped_buffer) = unat (size_bytes wrapped_buffer)"
    by (simp add: wrapped_buffer_def)
  show a: "avail (fst (comp_update_buffer_consume wrapped_buffer 12)) = 4294967295"
    by code_simp
  show f: "free (fst (comp_update_buffer_consume wrapped_buffer 12)) = 9"
    by code_simp
  show "size_bytes (fst (comp_update_buffer_consume wrapped_buffer 12)) = 8"
    by (simp add: wrapped_buffer_def comp_update_buffer_consume_def Let_def)
  show "r_ptr (fst (comp_update_buffer_consume wrapped_buffer 12)) = 109"
    by (simp add: wrapped_buffer_def comp_update_buffer_consume_def Let_def)
  show "end_addr (fst (comp_update_buffer_consume wrapped_buffer 12)) = 108"
    by (simp add: wrapped_buffer_def comp_update_buffer_consume_def Let_def)
  show "unat (avail (fst (comp_update_buffer_consume wrapped_buffer 12)))
     + unat (free (fst (comp_update_buffer_consume wrapped_buffer 12))) = 4294967304"
    unfolding a f by simp
qed

text \<open>
  C3, amended. For a ring buffer whose cursors lie in the storage and whose
  counters add up to the size, the byte counts \<open>avail\<close> and \<open>free\<close> add up
  to the size after a produce of any number of bytes, and after a consume of
  any number of bytes up to the size of the buffer (so for every consume of at
  most \<open>avail\<close> bytes, which is all a caller may ask for). For \<open>n\<close> up to
  the size both calls leave the cursors in the storage, and on a buffer that
  satisfies the data-model invariant they preserve all of it. After a consume
  of more than that, only the equality of the \<^verbatim>\<open>uint32_t\<close> values, that is
  modulo \<open>2\<^sup>3\<^sup>2\<close>, is left.
\<close>

theorem avail_free_sum_kept:
  assumes "cursors_in_buffer b"
    and "unat (avail b) + unat (free b) = unat (size_bytes b)"
  shows "unat (avail (fst (comp_update_buffer_produce b n)))
           + unat (free (fst (comp_update_buffer_produce b n)))
         = unat (size_bytes (fst (comp_update_buffer_produce b n)))
       \<and> (n \<le> size_bytes b \<longrightarrow>
            unat (avail (fst (comp_update_buffer_consume b n)))
              + unat (free (fst (comp_update_buffer_consume b n)))
            = unat (size_bytes (fst (comp_update_buffer_consume b n))) \<and>
            cursors_in_buffer (fst (comp_update_buffer_produce b n)) \<and>
            cursors_in_buffer (fst (comp_update_buffer_consume b n)))
       \<and> (n \<le> avail b \<longrightarrow>
            unat (avail (fst (comp_update_buffer_consume b n)))
              + unat (free (fst (comp_update_buffer_consume b n)))
            = unat (size_bytes (fst (comp_update_buffer_consume b n))) \<and>
            cursors_in_buffer (fst (comp_update_buffer_consume b n)))
       \<and> (buffer_wf b \<and> n \<le> size_bytes b \<longrightarrow>
            buffer_wf (fst (comp_update_buffer_produce b n)) \<and>
            buffer_wf (fst (comp_update_buffer_consume b n)))
       \<and> avail (fst (comp_update_buffer_consume b n)) + free (fst (comp_update_buffer_consume b n))
           = size_bytes (fst (comp_update_buffer_consume b n))"
proof (intro conjI impI)
  show "unat (avail (fst (comp_update_buffer_produce b n)))
           + unat (free (fst (comp_update_buffer_produce b n)))
         = unat (size_bytes (fst (comp_update_buffer_produce b n)))"
    using assms by (rule produce_keeps_sum)
next
  assume "n \<le> size_bytes b"
  with assms show "unat (avail (fst (comp_update_buffer_consume b n)))
              + unat (free (fst (comp_update_buffer_consume b n)))
            = unat (size_bytes (fst (comp_update_buffer_consume b n)))"
    by (rule consume_keeps_sum)
next
  assume "n \<le> size_bytes b"
  with assms(1) show "cursors_in_buffer (fst (comp_update_buffer_produce b n))"
    by (rule produce_keeps_cursors)
next
  assume "n \<le> size_bytes b"
  with assms(1) show "cursors_in_buffer (fst (comp_update_buffer_consume b n))"
    by (rule consume_keeps_cursors)
next
  assume "n \<le> avail b"
  moreover from assms(2) have "avail b \<le> size_bytes b" by (simp add: word_le_nat_alt)
  ultimately have "n \<le> size_bytes b" by (rule order_trans)
  with assms show "unat (avail (fst (comp_update_buffer_consume b n)))
              + unat (free (fst (comp_update_buffer_consume b n)))
            = unat (size_bytes (fst (comp_update_buffer_consume b n)))"
    by (rule consume_keeps_sum)
next
  assume "n \<le> avail b"
  moreover from assms(2) have "avail b \<le> size_bytes b" by (simp add: word_le_nat_alt)
  ultimately have "n \<le> size_bytes b" by (rule order_trans)
  with assms(1) show "cursors_in_buffer (fst (comp_update_buffer_consume b n))"
    by (rule consume_keeps_cursors)
next
  assume "buffer_wf b \<and> n \<le> size_bytes b"
  then show "buffer_wf (fst (comp_update_buffer_produce b n))"
    using produce_keeps_wf by blast
next
  assume "buffer_wf b \<and> n \<le> size_bytes b"
  then show "buffer_wf (fst (comp_update_buffer_consume b n))"
    using consume_keeps_wf by blast
next
  have "avail b + free b = size_bytes b"
    using assms(2) by (simp add: word_arith_nat_add)
  then show "avail (fst (comp_update_buffer_consume b n)) + free (fst (comp_update_buffer_consume b n))
           = size_bytes (fst (comp_update_buffer_consume b n))"
    by (simp add: comp_update_buffer_consume_def Let_def)
qed

theorem avail_free_sum_kept_witness:
  "cursors_in_buffer wrapped_buffer \<and>
   unat (avail wrapped_buffer) + unat (free wrapped_buffer) = unat (size_bytes wrapped_buffer) \<and>
   (2 :: 32 word) \<le> size_bytes wrapped_buffer \<and>
   (2 :: 32 word) \<le> avail wrapped_buffer \<and>
   buffer_wf wrapped_buffer \<and>
   avail (fst (comp_update_buffer_produce wrapped_buffer 2)) = 5 \<and>
   free (fst (comp_update_buffer_produce wrapped_buffer 2)) = 3 \<and>
   avail (fst (comp_update_buffer_consume wrapped_buffer 2)) = 1 \<and>
   free (fst (comp_update_buffer_consume wrapped_buffer 2)) = 7 \<and>
   unat (avail (fst (comp_update_buffer_consume wrapped_buffer 2)))
     + unat (free (fst (comp_update_buffer_consume wrapped_buffer 2)))
     = unat (size_bytes (fst (comp_update_buffer_consume wrapped_buffer 2))) \<and>
   cursors_in_buffer (fst (comp_update_buffer_produce wrapped_buffer 2)) \<and>
   cursors_in_buffer (fst (comp_update_buffer_consume wrapped_buffer 2)) \<and>
   buffer_wf (fst (comp_update_buffer_produce wrapped_buffer 2)) \<and>
   buffer_wf (fst (comp_update_buffer_consume wrapped_buffer 2))"
  using avail_free_sum_kept [of wrapped_buffer 2]
  by (simp add: wrapped_buffer_def cursors_in_buffer_def buffer_wf_def
      comp_update_buffer_produce_def comp_update_buffer_consume_def Let_def)

text \<open>
  C4. The equal-cursor case is resolved by direction. On a buffer that
  satisfies the data-model invariant, a produce of exactly the free space
  moves the write cursor onto the read cursor, which stays where it was, and
  leaves \<open>avail = size\<close> and \<open>free = 0\<close>; a consume of exactly the
  available bytes moves the read cursor onto the write cursor, which stays
  where it was, and leaves \<open>avail = 0\<close> and \<open>free = size\<close>. Nothing else
  in the buffer changes.
\<close>

theorem exact_fill_and_drain:
  assumes "buffer_wf b"
  shows "avail (fst (comp_update_buffer_produce b (free b))) = size_bytes b
       \<and> free (fst (comp_update_buffer_produce b (free b))) = 0
       \<and> w_ptr (fst (comp_update_buffer_produce b (free b))) = r_ptr b
       \<and> r_ptr (fst (comp_update_buffer_produce b (free b))) = r_ptr b
       \<and> avail (fst (comp_update_buffer_consume b (avail b))) = 0
       \<and> free (fst (comp_update_buffer_consume b (avail b))) = size_bytes b
       \<and> r_ptr (fst (comp_update_buffer_consume b (avail b))) = w_ptr b
       \<and> w_ptr (fst (comp_update_buffer_consume b (avail b))) = w_ptr b
       \<and> fst (comp_update_buffer_produce b (free b))
           = b\<lparr>w_ptr := r_ptr b, avail := size_bytes b, free := 0\<rparr>
       \<and> fst (comp_update_buffer_consume b (avail b))
           = b\<lparr>r_ptr := w_ptr b, avail := 0, free := size_bytes b\<rparr>"
proof -
  have fill: "avail (fst (comp_update_buffer_produce b (free b))) = size_bytes b
       \<and> free (fst (comp_update_buffer_produce b (free b))) = 0
       \<and> w_ptr (fst (comp_update_buffer_produce b (free b))) = r_ptr b
       \<and> r_ptr (fst (comp_update_buffer_produce b (free b))) = r_ptr b"
  proof (cases "free b = 0")
    case True
    with full_cursors [OF assms True] show ?thesis
      by (simp add: comp_update_buffer_produce_def)
  next
    case False
    from exact_fill_cursor [OF assms False] False show ?thesis
      by (simp add: comp_update_buffer_produce_def Let_def)
  qed
  have drain: "avail (fst (comp_update_buffer_consume b (avail b))) = 0
       \<and> free (fst (comp_update_buffer_consume b (avail b))) = size_bytes b
       \<and> r_ptr (fst (comp_update_buffer_consume b (avail b))) = w_ptr b
       \<and> w_ptr (fst (comp_update_buffer_consume b (avail b))) = w_ptr b"
  proof (cases "avail b = 0")
    case True
    from assms True have "unat (free b) = unat (size_bytes b)" by (simp add: buffer_wf_def)
    then have "free b = size_bytes b" by (simp add: word_unat_eq_iff)
    with empty_cursors [OF assms True] True show ?thesis
      by (simp add: comp_update_buffer_consume_def)
  next
    case False
    from exact_drain_cursor [OF assms False] False show ?thesis
      by (simp add: comp_update_buffer_consume_def Let_def)
  qed
  from fill drain exact_fill_result [OF assms] exact_drain_result [OF assms]
  show ?thesis by simp
qed

theorem exact_fill_and_drain_witness:
  "buffer_wf wrapped_buffer \<and>
   fst (comp_update_buffer_produce wrapped_buffer 5)
     = wrapped_buffer\<lparr>w_ptr := 105, avail := 8, free := 0\<rparr> \<and>
   fst (comp_update_buffer_consume wrapped_buffer 3)
     = wrapped_buffer\<lparr>r_ptr := 100, avail := 0, free := 8\<rparr>"
  using exact_fill_and_drain [of wrapped_buffer]
  by (simp add: wrapped_buffer_def buffer_wf_def comp_update_buffer_produce_def
      comp_update_buffer_consume_def Let_def)

section \<open>Results and their parts\<close>

lemma result_parts:
  "ret_of res = Some r \<Longrightarrow> events_of res = Some evs \<Longrightarrow> \<exists>w'. res = Some (r, w', evs)"
  by (cases res) (auto simp: ret_of_def events_of_def)



section \<open>Copy order\<close>







section \<open>The walks return\<close>

subsection \<open>What a walk keeps of the graph\<close>

lemma same_graph_refl [simp]: "same_graph w w"
  by (simp add: same_graph_def)

lemma same_graph_trans: "same_graph a b \<Longrightarrow> same_graph b c \<Longrightarrow> same_graph a c"
  by (simp add: same_graph_def)

lemma same_graph_list:
  "same_graph w w1 \<Longrightarrow> comp_buffer_list (comps w1 c) dir = comp_buffer_list (comps w c) dir"
  by (simp add: same_graph_def comp_buffer_list_def)

lemma same_graph_far:
  "same_graph w w1 \<Longrightarrow> buffer_get_comp (buffers w1 b) dir = buffer_get_comp (buffers w b) dir"
  by (simp add: same_graph_def buffer_get_comp_def)

lemma same_graph_pipeline: "same_graph w w1 \<Longrightarrow> pipeline (comps w1 c) = pipeline (comps w c)"
  by (simp add: same_graph_def)

lemma visits_simps [simp]:
  "visits x [] = 0"
  "visits x (a @ b) = visits x a + visits x b"
  "visits x (CompTrigger c cmd r # evs) = (if c = x then 1 else 0) + visits x evs"
  "visits x (CompPrepare c r # evs) = (if c = x then 1 else 0) + visits x evs"
  "visits x (CompReset c r # evs) = (if c = x then 1 else 0) + visits x evs"
  "visits x (CompCopy c r # evs) = (if c = x then 1 else 0) + visits x evs"
  "visits x (IpcStreamSendXrun c n i # evs) = (if c = x then 1 else 0) + visits x evs"
  "visits x (PlatformHostTimestamp c # evs) = visits x evs"
  "visits x (PipelineTaskInit p # evs) = visits x evs"
  by (simp_all add: visits_def)

lemma sched_comp_same_graph:
  "pipeline_comp_trigger_sched_comp p c cmd w = (w2, ev2)
     \<Longrightarrow> same_graph w w2 \<and> visits x ev2 = 0"
  by (auto simp: pipeline_comp_trigger_sched_comp_def same_graph_def visits_def
      split: if_splits)

lemma comp_trigger_keeps_graph:
  assumes "trigger_hooks_keep_graph e"
  shows "\<exists>r w'. comp_trigger e c cmd w = Some (r, w', [CompTrigger c cmd r]) \<and> same_graph w w'"
proof -
  from assms obtain hook where h: "ops_trigger e c = Some hook"
    and k: "\<And>cmd w. same_graph w (snd (hook cmd w))"
    unfolding trigger_hooks_keep_graph_def by metis
  show ?thesis using h k [of w cmd] by (cases "hook cmd w") (auto simp: comp_trigger_def)
qed

lemma visits_one [simp]:
  "visits x [CompTrigger c cmd r] = (if c = x then 1 else 0)"
  "visits x [CompPrepare c r] = (if c = x then 1 else 0)"
  "visits x [CompReset c r] = (if c = x then 1 else 0)"
  "visits x [CompCopy c r] = (if c = x then 1 else 0)"
  by (simp_all add: visits_def)

subsection \<open>The loop over the buffers of a component\<close>

text \<open>
  The loop returns when the callback returns for every component at the far
  end of a buffer, and the visits it records are those of the callbacks.
  \<open>I\<close> is what the callbacks and the buffer function keep of the object graph
  \<open>w\<close> the walk began with.
\<close>

lemma for_each_walk:
  assumes far: "\<And>w1 b. I w1 \<Longrightarrow>
                 buffer_get_comp (buffers w1 b) dir = buffer_get_comp (buffers w b) dir"
    and bf: "\<And>w1 b f. I w1 \<Longrightarrow> buff_func = Some f
               \<Longrightarrow> I (w1\<lparr>buffers := (buffers w1)(b := f (buffers w1 b))\<rparr>)"
    and step: "\<And>b c' w1. b \<in> set bs \<Longrightarrow> buffer_get_comp (buffers w b) dir = Some c'
                 \<Longrightarrow> I w1
                 \<Longrightarrow> \<exists>r w' ev. func c' w1 = Some (r, w', ev) \<and> I w' \<and>
                       (\<forall>x. visits x ev \<le> g c' x)"
    and inv: "I w1"
  shows "\<exists>r w' ev. for_each_buffer func buff_func dir bs err w1 = Some (r, w', ev) \<and> I w' \<and>
           (\<forall>x. visits x ev \<le>
                  sum_list (map (\<lambda>b. case buffer_get_comp (buffers w b) dir of
                                        None \<Rightarrow> 0 | Some c' \<Rightarrow> g c' x) bs))"
  using step inv
proof (induction bs arbitrary: err w1)
  case Nil
  then show ?case by simp
next
  case (Cons b bs)
  define w1' where "w1' = (case buff_func of
                  None \<Rightarrow> w1
                | Some f \<Rightarrow> w1\<lparr>buffers := (buffers w1)(b := f (buffers w1 b))\<rparr>)"
  have i1: "I w1'"
    using Cons.prems(2) bf by (cases buff_func) (simp_all add: w1'_def)
  have far1: "buffer_get_comp (buffers w1' b) dir = buffer_get_comp (buffers w b) dir"
    using i1 by (rule far)
  have unfold: "for_each_buffer func buff_func dir (b # bs) err w1 =
      (case buffer_get_comp (buffers w b) dir of
           None \<Rightarrow> for_each_buffer func buff_func dir bs err w1'
         | Some buffer_comp \<Rightarrow>
             (case func buffer_comp w1' of
                None \<Rightarrow> None
              | Some (err1, w2, ev1) \<Rightarrow>
                  if err1 < 0 then Some (err1, w2, ev1)
                  else (case for_each_buffer func buff_func dir bs err1 w2 of
                          None \<Rightarrow> None
                        | Some (err2, w3, ev2) \<Rightarrow> Some (err2, w3, ev1 @ ev2))))"
    by (simp only: for_each_buffer.simps w1'_def [symmetric] Let_def far1)
  have rest: "\<And>b c' w1. b \<in> set bs \<Longrightarrow> buffer_get_comp (buffers w b) dir = Some c'
                 \<Longrightarrow> I w1
                 \<Longrightarrow> \<exists>r w' ev. func c' w1 = Some (r, w', ev) \<and> I w' \<and>
                       (\<forall>x. visits x ev \<le> g c' x)"
    by (rule Cons.prems(1)) auto
  show ?case
  proof (cases "buffer_get_comp (buffers w b) dir")
    case None
    have "\<exists>r w' ev. for_each_buffer func buff_func dir bs err w1' = Some (r, w', ev) \<and> I w' \<and>
           (\<forall>x. visits x ev \<le>
                  sum_list (map (\<lambda>b. case buffer_get_comp (buffers w b) dir of
                                        None \<Rightarrow> 0 | Some c' \<Rightarrow> g c' x) bs))"
      using rest i1 by (rule Cons.IH)
    with None show ?thesis unfolding unfold by simp
  next
    case (Some c')
    from Cons.prems(1) [of b c' w1'] Some i1
    obtain r1 w2 ev1 where f: "func c' w1' = Some (r1, w2, ev1)" and i2: "I w2"
      and v1: "\<And>x. visits x ev1 \<le> g c' x"
      by auto
    show ?thesis
    proof (cases "r1 < 0")
      case True
      have "\<And>x. visits x ev1 \<le> g c' x +
                  sum_list (map (\<lambda>b. case buffer_get_comp (buffers w b) dir of
                                        None \<Rightarrow> 0 | Some c' \<Rightarrow> g c' x) bs)"
        using v1 by (simp add: trans_le_add1)
      with True f i2 Some show ?thesis unfolding unfold by simp
    next
      case False
      have "\<exists>r w' ev. for_each_buffer func buff_func dir bs r1 w2 = Some (r, w', ev) \<and> I w' \<and>
           (\<forall>x. visits x ev \<le>
                  sum_list (map (\<lambda>b. case buffer_get_comp (buffers w b) dir of
                                        None \<Rightarrow> 0 | Some c' \<Rightarrow> g c' x) bs))"
        using rest i2 by (rule Cons.IH)
      then obtain r w' ev2 where
        l: "for_each_buffer func buff_func dir bs r1 w2 = Some (r, w', ev2)" and i3: "I w'"
        and v2: "\<And>x. visits x ev2 \<le>
                  sum_list (map (\<lambda>b. case buffer_get_comp (buffers w b) dir of
                                        None \<Rightarrow> 0 | Some c' \<Rightarrow> g c' x) bs)"
        by blast
      have "\<And>x. visits x (ev1 @ ev2) \<le> g c' x +
                  sum_list (map (\<lambda>b. case buffer_get_comp (buffers w b) dir of
                                        None \<Rightarrow> 0 | Some c' \<Rightarrow> g c' x) bs)"
        using v1 v2 by (simp add: add_mono)
      with False f l i3 Some show ?thesis unfolding unfold by simp
    qed
  qed
qed

text \<open>The same for the loop of a component whose buffer list is the one of \<open>w\<close>.\<close>

lemma for_each_comp_walk:
  assumes far: "\<And>w1 b. I w1 \<Longrightarrow>
                 buffer_get_comp (buffers w1 b) dir = buffer_get_comp (buffers w b) dir"
    and bf: "\<And>w1 b f. I w1 \<Longrightarrow> buff_func = Some f
               \<Longrightarrow> I (w1\<lparr>buffers := (buffers w1)(b := f (buffers w1 b))\<rparr>)"
    and dec: "\<And>c' c. (c', c) \<in> walk_edges w dir \<Longrightarrow> rank c' < (rank c :: nat)"
    and step: "\<And>c' w1. (c', c) \<in> walk_edges w dir \<Longrightarrow> rank c' < fuel \<Longrightarrow> I w1
                 \<Longrightarrow> \<exists>r w' ev. func c' w1 = Some (r, w', ev) \<and> I w' \<and>
                       (\<forall>x. visits x ev \<le> path_count fuel w dir c' x)"
    and rank: "rank c < Suc fuel"
    and inv: "I w1"
    and list: "comp_buffer_list (comps w1 c) dir = comp_buffer_list (comps w c) dir"
  shows "\<exists>r w' ev. pipeline_for_each_comp c func buff_func dir w1 = Some (r, w', ev) \<and> I w' \<and>
           (\<forall>x. (if c = x then 1 else 0) + visits x ev \<le> path_count (Suc fuel) w dir c x)"
proof -
  have "\<exists>r w' ev. for_each_buffer func buff_func dir (comp_buffer_list (comps w c) dir) 0 w1
            = Some (r, w', ev) \<and> I w' \<and>
           (\<forall>x. visits x ev \<le>
                  sum_list (map (\<lambda>b. case buffer_get_comp (buffers w b) dir of
                                        None \<Rightarrow> 0 | Some c' \<Rightarrow> path_count fuel w dir c' x)
                             (comp_buffer_list (comps w c) dir)))"
  proof (rule for_each_walk [where I = I and w = w and dir = dir and buff_func = buff_func
          and func = func and g = "\<lambda>c' x. path_count fuel w dir c' x"])
    show "\<And>w1 b. I w1 \<Longrightarrow>
            buffer_get_comp (buffers w1 b) dir = buffer_get_comp (buffers w b) dir"
      by (rule far)
    show "\<And>w1 b f. I w1 \<Longrightarrow> buff_func = Some f
            \<Longrightarrow> I (w1\<lparr>buffers := (buffers w1)(b := f (buffers w1 b))\<rparr>)"
      by (rule bf)
    show "I w1" by (rule inv)
  next
    fix b c' wa
    assume b: "b \<in> set (comp_buffer_list (comps w c) dir)"
      and f: "buffer_get_comp (buffers w b) dir = Some c'" and i: "I wa"
    then have e: "(c', c) \<in> walk_edges w dir" by (auto simp: walk_edges_def)
    then have "rank c' < rank c" by (rule dec)
    with rank have r: "rank c' < fuel" by simp
    from e r i show "\<exists>r w' ev. func c' wa = Some (r, w', ev) \<and> I w' \<and>
                       (\<forall>x. visits x ev \<le> path_count fuel w dir c' x)"
      by (rule step)
  qed
  then show ?thesis by (auto simp: pipeline_for_each_comp_def list)
qed

subsection \<open>The driver hooks and the blocks of the walks\<close>

lemma self_le_path_count:
  "(if c = x then 1 else 0) \<le> path_count (Suc fuel) w dir c x"
  by simp

lemma same_graph_source: "same_graph w w1 \<Longrightarrow> source_comp (pipes w1 p) = source_comp (pipes w p)"
  by (simp add: same_graph_def)

lemma same_graph_sink: "same_graph w w1 \<Longrightarrow> sink_comp (pipes w1 p) = sink_comp (pipes w p)"
  by (simp add: same_graph_def)

lemma same_graph_buffer_update:
  assumes "same_graph w w1" and "source (f (buffers w1 b)) = source (buffers w1 b)"
    and "sink (f (buffers w1 b)) = sink (buffers w1 b)"
  shows "same_graph w (w1\<lparr>buffers := (buffers w1)(b := f (buffers w1 b))\<rparr>)"
  using assms by (simp add: same_graph_def)

lemma comp_copy_keeps_graph:
  assumes "copy_hooks_keep_graph e"
  shows "\<exists>r w'. comp_copy e c w = Some (r, w', [CompCopy c r]) \<and> same_graph w w'"
proof -
  from assms obtain hook where h: "ops_copy e c = Some hook"
    and k: "\<And>w. same_graph w (snd (hook w))"
    unfolding copy_hooks_keep_graph_def by metis
  show ?thesis using h k [of w] by (cases "hook w") (auto simp: comp_copy_def)
qed

lemma comp_prepare_keeps_graph:
  assumes "prepare_hooks_keep_graph e"
  shows "\<exists>r w' ev. comp_prepare e c w = Some (r, w', ev) \<and> same_graph w w' \<and>
           (\<forall>x. visits x ev \<le> (if c = x then 1 else 0))"
proof (cases "ops_prepare e c")
  case None
  then show ?thesis by (simp add: comp_prepare_def)
next
  case (Some hook)
  with assms have "same_graph w (snd (hook w))"
    unfolding prepare_hooks_keep_graph_def by blast
  with Some show ?thesis by (cases "hook w") (auto simp: comp_prepare_def)
qed

lemma comp_reset_keeps_graph:
  assumes "reset_hooks_keep_graph e"
  shows "\<exists>r w' ev. comp_reset e c w = Some (r, w', ev) \<and> same_graph w w' \<and>
           (\<forall>x. visits x ev \<le> (if c = x then 1 else 0))"
proof (cases "ops_reset e c")
  case None
  then show ?thesis by (simp add: comp_reset_def)
next
  case (Some hook)
  with assms have "same_graph w (snd (hook w))"
    unfolding reset_hooks_keep_graph_def by blast
  with Some show ?thesis by (cases "hook w") (auto simp: comp_reset_def)
qed

lemma task_init_keeps_graph:
  "pipeline_comp_task_init e cp w = (err0, w0, ev0) \<Longrightarrow> same_graph w w0 \<and> visits x ev0 = 0"
  by (auto simp: pipeline_comp_task_init_def same_graph_def visits_def
      split: if_splits option.splits)

lemma foreign_stop_defined:
  assumes "same_graph w w1" and "pipeline (comps w c) = Some cp"
    and "sink_comp (pipes w cp) \<noteq> None"
  shows "\<exists>b. foreign_pipeline_stop w1 c dir = Some b"
proof -
  from assms have "pipeline (comps w1 c) = Some cp" by (simp add: same_graph_pipeline)
  moreover from assms obtain snk where "sink_comp (pipes w1 cp) = Some snk"
    by (auto simp: same_graph_sink)
  ultimately show ?thesis by (simp add: foreign_pipeline_stop_def Let_def)
qed

text \<open>The components a walk from \<open>start\<close> can reach belong to completed pipelines.\<close>

lemma reached_ready:
  assumes "pipelines_assigned w dir start" and "pipelines_completed w dir start"
    and "c = start \<or> c \<in> Domain (walk_edges w dir)"
  shows "\<exists>cp. pipeline (comps w c) = Some cp \<and> sink_comp (pipes w cp) \<noteq> None"
proof -
  from assms(1,3) obtain cp where cp: "pipeline (comps w c) = Some cp"
    by (auto simp: pipelines_assigned_def)
  with assms(2,3) have "sink_comp (pipes w cp) \<noteq> None"
    unfolding pipelines_completed_def by blast
  with cp show ?thesis by blast
qed

subsection \<open>The trigger walk\<close>

lemma trigger_walk:
  assumes dec: "\<And>c' c. (c', c) \<in> walk_edges w dir \<Longrightarrow> rank c' < (rank c :: nat)"
    and asg: "pipelines_assigned w dir start"
    and keep: "trigger_hooks_keep_graph e"
  shows "same_graph w w1 \<Longrightarrow> rank c < fuel \<Longrightarrow> pipeline (comps w c) \<noteq> None
     \<Longrightarrow> \<exists>r w' ev. pipeline_comp_trigger fuel e start cmd dir c w1 = Some (r, w', ev)
           \<and> same_graph w w' \<and> (\<forall>x. visits x ev \<le> path_count fuel w dir c x)"
proof (induction fuel arbitrary: c w1)
  case 0
  then show ?case by simp
next
  case (Suc fuel)
  from Suc.prems obtain cp where cp: "pipeline (comps w1 c) = Some cp"
    by (auto simp: same_graph_pipeline)
  from asg Suc.prems obtain sp where sp: "pipeline (comps w1 start) = Some sp"
    by (auto simp: pipelines_assigned_def same_graph_pipeline)
  obtain r1 w2 where ct: "comp_trigger e c cmd w1 = Some (r1, w2, [CompTrigger c cmd r1])"
    and g2: "same_graph w1 w2"
    using comp_trigger_keeps_graph [OF keep] by blast
  have gw2: "same_graph w w2" using Suc.prems(1) g2 by (rule same_graph_trans)
  then have cp2: "pipeline (comps w2 c) = Some cp"
    using cp Suc.prems(1) by (simp add: same_graph_pipeline)
  obtain w3 ev3 where sc: "pipeline_comp_trigger_sched_comp cp c cmd w2 = (w3, ev3)"
    by (cases "pipeline_comp_trigger_sched_comp cp c cmd w2")
  have gw3: "same_graph w w3" and v3: "\<And>x. visits x ev3 = 0"
    using sched_comp_same_graph [OF sc] gw2 same_graph_trans by blast+
  have "\<exists>r w' ev. pipeline_for_each_comp c (pipeline_comp_trigger fuel e start cmd dir) None dir w3
            = Some (r, w', ev) \<and> same_graph w w' \<and>
           (\<forall>x. (if c = x then 1 else 0) + visits x ev \<le> path_count (Suc fuel) w dir c x)"
  proof (rule for_each_comp_walk [where I = "same_graph w" and rank = rank])
    show "\<And>w1 b. same_graph w w1 \<Longrightarrow>
            buffer_get_comp (buffers w1 b) dir = buffer_get_comp (buffers w b) dir"
      by (rule same_graph_far)
    show "\<And>w1 b f. same_graph w w1 \<Longrightarrow> None = Some f
            \<Longrightarrow> same_graph w (w1\<lparr>buffers := (buffers w1)(b := f (buffers w1 b))\<rparr>)"
      by simp
    show "\<And>c' c. (c', c) \<in> walk_edges w dir \<Longrightarrow> rank c' < rank c" by (rule dec)
    show "rank c < Suc fuel" by (rule Suc.prems(2))
    show "same_graph w w3" by (rule gw3)
    show "comp_buffer_list (comps w3 c) dir = comp_buffer_list (comps w c) dir"
      using gw3 by (rule same_graph_list)
  next
    fix c' wa
    assume e: "(c', c) \<in> walk_edges w dir" and r: "rank c' < fuel" and g: "same_graph w wa"
    from asg e have "pipeline (comps w c') \<noteq> None" by (auto simp: pipelines_assigned_def)
    with g r show "\<exists>r w' ev. pipeline_comp_trigger fuel e start cmd dir c' wa = Some (r, w', ev)
                     \<and> same_graph w w' \<and> (\<forall>x. visits x ev \<le> path_count fuel w dir c' x)"
      by (rule Suc.IH)
  qed
  then obtain r4 w4 ev4 where
    fe: "pipeline_for_each_comp c (pipeline_comp_trigger fuel e start cmd dir) None dir w3 =
           Some (r4, w4, ev4)"
    and gw4: "same_graph w w4"
    and v4: "\<And>x. (if c = x then 1 else 0) + visits x ev4 \<le> path_count (Suc fuel) w dir c x"
    by blast
  show ?case
  proof (cases "\<not> comp_is_single_pipeline (comps w1 c) (comps w1 start) \<and>
                \<not> pipeline_is_same_sched_comp (pipes w1 cp) (pipes w1 sp)")
    case True
    with cp sp have "pipeline_comp_trigger (Suc fuel) e start cmd dir c w1 = Some (0, w1, [])"
      by (simp add: Let_def)
    with Suc.prems(1) show ?thesis by simp
  next
    case go: False
    show ?thesis
    proof (cases "r1 < 0 \<or> r1 = PPL_STATUS_PATH_STOP")
      case True
      with cp sp go ct have "pipeline_comp_trigger (Suc fuel) e start cmd dir c w1 =
          Some (r1, w2, [CompTrigger c cmd r1])"
        by (auto simp: Let_def)
      with gw2 show ?thesis by simp
    next
      case False
      with cp sp go ct cp2 sc fe have "pipeline_comp_trigger (Suc fuel) e start cmd dir c w1 =
          Some (r4, w4, [CompTrigger c cmd r1] @ ev3 @ ev4)"
        by (auto simp: Let_def)
      moreover have "\<And>x. visits x ([CompTrigger c cmd r1] @ ev3 @ ev4)
                       \<le> path_count (Suc fuel) w dir c x"
        using v3 v4 by simp
      ultimately show ?thesis using gw4 by blast
    qed
  qed
qed

subsection \<open>The XRUN notification walk\<close>

lemma xrun_walk:
  assumes dec: "\<And>c' c. (c', c) \<in> walk_edges w dir \<Longrightarrow> rank c' < (rank c :: nat)"
  shows "rank c < fuel
     \<Longrightarrow> \<exists>r ev. pipeline_comp_xrun fuel xrun_size xrun_comp_id dir c w = Some (r, w, ev)
           \<and> (\<forall>x. visits x ev \<le> path_count fuel w dir c x)"
proof (induction fuel arbitrary: c)
  case 0
  then show ?case by simp
next
  case (Suc fuel)
  define ev1 where "ev1 = (if comp_type (comps w c) = SOF_COMP_HOST
                 then [PlatformHostTimestamp c, IpcStreamSendXrun c xrun_size xrun_comp_id]
                 else [])"
  have v1: "\<And>x. visits x ev1 \<le> (if c = x then 1 else 0)" by (simp add: ev1_def)
  have "\<exists>r w' ev. pipeline_for_each_comp c (pipeline_comp_xrun fuel xrun_size xrun_comp_id dir)
              None dir w = Some (r, w', ev) \<and> w' = w \<and>
           (\<forall>x. (if c = x then 1 else 0) + visits x ev \<le> path_count (Suc fuel) w dir c x)"
  proof (rule for_each_comp_walk [where I = "\<lambda>w1. w1 = w" and rank = rank])
    show "\<And>w1 b. w1 = w \<Longrightarrow>
            buffer_get_comp (buffers w1 b) dir = buffer_get_comp (buffers w b) dir"
      by simp
    show "\<And>w1 b f. w1 = w \<Longrightarrow> None = Some f
            \<Longrightarrow> w1\<lparr>buffers := (buffers w1)(b := f (buffers w1 b))\<rparr> = w"
      by simp
    show "\<And>c' c. (c', c) \<in> walk_edges w dir \<Longrightarrow> rank c' < rank c" by (rule dec)
    show "rank c < Suc fuel" by (rule Suc.prems)
    show "w = w" by simp
    show "comp_buffer_list (comps w c) dir = comp_buffer_list (comps w c) dir" by simp
  next
    fix c' wa
    assume "(c', c) \<in> walk_edges w dir" and r: "rank c' < fuel" and g: "wa = w"
    from Suc.IH [OF r] g
    show "\<exists>r w' ev. pipeline_comp_xrun fuel xrun_size xrun_comp_id dir c' wa = Some (r, w', ev)
                     \<and> w' = w \<and> (\<forall>x. visits x ev \<le> path_count fuel w dir c' x)"
      by simp
  qed
  then obtain r4 ev4 where
    fe: "pipeline_for_each_comp c (pipeline_comp_xrun fuel xrun_size xrun_comp_id dir) None dir w =
           Some (r4, w, ev4)"
    and v4: "\<And>x. (if c = x then 1 else 0) + visits x ev4 \<le> path_count (Suc fuel) w dir c x"
    by blast
  from fe have "pipeline_comp_xrun (Suc fuel) xrun_size xrun_comp_id dir c w =
      Some (r4, w, ev1 @ ev4)"
    by (simp add: Let_def ev1_def)
  moreover have "\<And>x. visits x (ev1 @ ev4) \<le> path_count (Suc fuel) w dir c x"
  proof -
    fix x
    have "visits x (ev1 @ ev4) \<le> (if c = x then 1 else 0) + visits x ev4"
      using v1 [of x] by simp
    also have "\<dots> \<le> path_count (Suc fuel) w dir c x" by (rule v4)
    finally show "visits x (ev1 @ ev4) \<le> path_count (Suc fuel) w dir c x" .
  qed
  ultimately show ?case by blast
qed

subsection \<open>The copy walk\<close>

lemma copy_walk:
  assumes dec: "\<And>c' c. (c', c) \<in> walk_edges w dir \<Longrightarrow> rank c' < (rank c :: nat)"
    and keep: "copy_hooks_keep_graph e"
  shows "same_graph w w1 \<Longrightarrow> rank c < fuel
     \<Longrightarrow> \<exists>r w' ev. pipeline_comp_copy fuel e start dir c w1 = Some (r, w', ev)
           \<and> same_graph w w' \<and> (\<forall>x. visits x ev \<le> path_count fuel w dir c x)"
proof (induction fuel arbitrary: c w1)
  case 0
  then show ?case by simp
next
  case (Suc fuel)
  have loop: "\<exists>r w' ev. pipeline_for_each_comp c (pipeline_comp_copy fuel e start dir) None dir wa
            = Some (r, w', ev) \<and> same_graph w w' \<and>
           (\<forall>x. (if c = x then 1 else 0) + visits x ev \<le> path_count (Suc fuel) w dir c x)"
    if ga: "same_graph w wa" for wa
  proof (rule for_each_comp_walk [where I = "same_graph w" and rank = rank])
    show "\<And>w1 b. same_graph w w1 \<Longrightarrow>
            buffer_get_comp (buffers w1 b) dir = buffer_get_comp (buffers w b) dir"
      by (rule same_graph_far)
    show "\<And>w1 b f. same_graph w w1 \<Longrightarrow> None = Some f
            \<Longrightarrow> same_graph w (w1\<lparr>buffers := (buffers w1)(b := f (buffers w1 b))\<rparr>)"
      by simp
    show "\<And>c' c. (c', c) \<in> walk_edges w dir \<Longrightarrow> rank c' < rank c" by (rule dec)
    show "rank c < Suc fuel" by (rule Suc.prems(2))
    show "same_graph w wa" by (rule ga)
    show "comp_buffer_list (comps wa c) dir = comp_buffer_list (comps w c) dir"
      using ga by (rule same_graph_list)
  next
    fix c' wb
    assume "(c', c) \<in> walk_edges w dir" and r: "rank c' < fuel" and g: "same_graph w wb"
    from g r show "\<exists>r w' ev. pipeline_comp_copy fuel e start dir c' wb = Some (r, w', ev)
                     \<and> same_graph w w' \<and> (\<forall>x. visits x ev \<le> path_count fuel w dir c' x)"
      by (rule Suc.IH)
  qed
  show ?case
  proof (cases "comp_is_single_pipeline (comps w1 c) (comps w1 start) \<and>
                comp_is_active (comps w1 c)")
    case False
    then have "pipeline_comp_copy (Suc fuel) e start dir c w1 = Some (0, w1, [])" by auto
    with Suc.prems(1) show ?thesis by simp
  next
    case go: True
    show ?thesis
    proof (cases "dir = PPL_DIR_DOWNSTREAM")
      case down: True
      obtain r1 w2 where cc: "comp_copy e c w1 = Some (r1, w2, [CompCopy c r1])"
        and g2: "same_graph w1 w2"
        using comp_copy_keeps_graph [OF keep] by blast
      have gw2: "same_graph w w2" using Suc.prems(1) g2 by (rule same_graph_trans)
      show ?thesis
      proof (cases "r1 < 0 \<or> r1 = PPL_STATUS_PATH_STOP")
        case True
        with go down cc have "pipeline_comp_copy (Suc fuel) e start dir c w1 =
            Some (r1, w2, [CompCopy c r1])"
          by auto
        with gw2 show ?thesis by simp
      next
        case False
        from loop [OF gw2] obtain r4 w4 ev4 where
          fe: "pipeline_for_each_comp c (pipeline_comp_copy fuel e start dir) None dir w2 =
                 Some (r4, w4, ev4)"
          and gw4: "same_graph w w4"
          and v4: "\<And>x. (if c = x then 1 else 0) + visits x ev4
                      \<le> path_count (Suc fuel) w dir c x"
          by blast
        from go down cc False fe have "pipeline_comp_copy (Suc fuel) e start dir c w1 =
            Some (r4, w4, [CompCopy c r1] @ ev4)"
          by (auto simp: PPL_DIR_UPSTREAM_def PPL_DIR_DOWNSTREAM_def)
        moreover have "\<And>x. visits x ([CompCopy c r1] @ ev4) \<le> path_count (Suc fuel) w dir c x"
          using v4 by simp
        ultimately show ?thesis using gw4 by blast
      qed
    next
      case up: False
      from loop [OF Suc.prems(1)] obtain r4 w4 ev4 where
        fe: "pipeline_for_each_comp c (pipeline_comp_copy fuel e start dir) None dir w1 =
               Some (r4, w4, ev4)"
        and gw4: "same_graph w w4"
        and v4: "\<And>x. (if c = x then 1 else 0) + visits x ev4
                    \<le> path_count (Suc fuel) w dir c x"
        by blast
      have v4': "\<And>x. visits x ev4 \<le> path_count (Suc fuel) w dir c x"
        using v4 by (meson add_leD2)
      show ?thesis
      proof (cases "r4 < 0 \<or> r4 = PPL_STATUS_PATH_STOP \<or> dir \<noteq> PPL_DIR_UPSTREAM")
        case True
        with go up fe have "pipeline_comp_copy (Suc fuel) e start dir c w1 = Some (r4, w4, ev4)"
          by auto
        with gw4 v4' show ?thesis by blast
      next
        case False
        obtain r5 w5 where cc: "comp_copy e c w4 = Some (r5, w5, [CompCopy c r5])"
          and g5: "same_graph w4 w5"
          using comp_copy_keeps_graph [OF keep] by blast
        have gw5: "same_graph w w5" using gw4 g5 by (rule same_graph_trans)
        from go up fe False cc have "pipeline_comp_copy (Suc fuel) e start dir c w1 =
            Some (r5, w5, ev4 @ [CompCopy c r5])"
          by auto
        moreover have "\<And>x. visits x (ev4 @ [CompCopy c r5]) \<le> path_count (Suc fuel) w dir c x"
        proof -
          fix x
          have "visits x (ev4 @ [CompCopy c r5]) = (if c = x then 1 else 0) + visits x ev4"
            by simp
          also have "\<dots> \<le> path_count (Suc fuel) w dir c x" by (rule v4)
          finally show "visits x (ev4 @ [CompCopy c r5]) \<le> path_count (Suc fuel) w dir c x" .
        qed
        ultimately show ?thesis using gw5 by blast
      qed
    qed
  qed
qed

subsection \<open>The reset walk\<close>

lemma reset_walk:
  assumes dec: "\<And>c' c. (c', c) \<in> walk_edges w dir \<Longrightarrow> rank c' < (rank c :: nat)"
    and asg: "pipelines_assigned w dir start"
    and cmp: "pipelines_completed w dir start"
    and src: "source_comp (pipes w p) \<noteq> None"
    and keep: "reset_hooks_keep_graph e"
  shows "same_graph w w1 \<Longrightarrow> rank c < fuel \<Longrightarrow> c = start \<or> c \<in> Domain (walk_edges w dir)
     \<Longrightarrow> \<exists>r w' ev. pipeline_comp_reset fuel e p dir c w1 = Some (r, w', ev)
           \<and> same_graph w w' \<and> (\<forall>x. visits x ev \<le> path_count fuel w dir c x)"
proof (induction fuel arbitrary: c w1)
  case 0
  then show ?case by simp
next
  case (Suc fuel)
  from src Suc.prems(1) obtain s where s: "source_comp (pipes w1 p) = Some s"
    by (auto simp: same_graph_source)
  from reached_ready [OF asg cmp Suc.prems(3)] obtain cp where
    cp: "pipeline (comps w c) = Some cp" and snk: "sink_comp (pipes w cp) \<noteq> None"
    by blast
  from foreign_stop_defined [OF Suc.prems(1) cp snk] obtain fs where
    fs: "foreign_pipeline_stop w1 c dir = Some fs"
    by blast
  define stop where "stop = (\<not> comp_is_single_pipeline (comps w1 c) (comps w1 s) \<and> fs)"
  have st: "(if comp_is_single_pipeline (comps w1 c) (comps w1 s) then Some False
             else foreign_pipeline_stop w1 c dir) = Some stop"
    by (simp add: stop_def fs)
  obtain r1 w2 ev1 where cr: "comp_reset e c w1 = Some (r1, w2, ev1)"
    and g2: "same_graph w1 w2" and v1: "\<And>x. visits x ev1 \<le> (if c = x then 1 else 0)"
    using comp_reset_keeps_graph [OF keep] by blast
  have gw2: "same_graph w w2" using Suc.prems(1) g2 by (rule same_graph_trans)
  have "\<exists>r w' ev. pipeline_for_each_comp c (pipeline_comp_reset fuel e p dir) None dir w2
            = Some (r, w', ev) \<and> same_graph w w' \<and>
           (\<forall>x. (if c = x then 1 else 0) + visits x ev \<le> path_count (Suc fuel) w dir c x)"
  proof (rule for_each_comp_walk [where I = "same_graph w" and rank = rank])
    show "\<And>w1 b. same_graph w w1 \<Longrightarrow>
            buffer_get_comp (buffers w1 b) dir = buffer_get_comp (buffers w b) dir"
      by (rule same_graph_far)
    show "\<And>w1 b f. same_graph w w1 \<Longrightarrow> None = Some f
            \<Longrightarrow> same_graph w (w1\<lparr>buffers := (buffers w1)(b := f (buffers w1 b))\<rparr>)"
      by simp
    show "\<And>c' c. (c', c) \<in> walk_edges w dir \<Longrightarrow> rank c' < rank c" by (rule dec)
    show "rank c < Suc fuel" by (rule Suc.prems(2))
    show "same_graph w w2" by (rule gw2)
    show "comp_buffer_list (comps w2 c) dir = comp_buffer_list (comps w c) dir"
      using gw2 by (rule same_graph_list)
  next
    fix c' wa
    assume e: "(c', c) \<in> walk_edges w dir" and r: "rank c' < fuel" and g: "same_graph w wa"
    from e have "c' = start \<or> c' \<in> Domain (walk_edges w dir)" by auto
    with g r show "\<exists>r w' ev. pipeline_comp_reset fuel e p dir c' wa = Some (r, w', ev)
                     \<and> same_graph w w' \<and> (\<forall>x. visits x ev \<le> path_count fuel w dir c' x)"
      by (rule Suc.IH)
  qed
  then obtain r4 w4 ev4 where
    fe: "pipeline_for_each_comp c (pipeline_comp_reset fuel e p dir) None dir w2 =
           Some (r4, w4, ev4)"
    and gw4: "same_graph w w4"
    and v4: "\<And>x. (if c = x then 1 else 0) + visits x ev4 \<le> path_count (Suc fuel) w dir c x"
    by blast
  show ?case
  proof (cases stop)
    case True
    with s st have "pipeline_comp_reset (Suc fuel) e p dir c w1 = Some (0, w1, [])" by simp
    with Suc.prems(1) show ?thesis by simp
  next
    case go: False
    show ?thesis
    proof (cases "r1 < 0 \<or> r1 = PPL_STATUS_PATH_STOP")
      case True
      with s st go cr have "pipeline_comp_reset (Suc fuel) e p dir c w1 = Some (r1, w2, ev1)"
        by simp
      moreover have "\<And>x. visits x ev1 \<le> path_count (Suc fuel) w dir c x"
        using v1 self_le_path_count le_trans by blast
      ultimately show ?thesis using gw2 by blast
    next
      case False
      with s st go cr fe have "pipeline_comp_reset (Suc fuel) e p dir c w1 =
          Some (r4, w4, ev1 @ ev4)"
        by simp
      moreover have "\<And>x. visits x (ev1 @ ev4) \<le> path_count (Suc fuel) w dir c x"
      proof -
        fix x
        have "visits x (ev1 @ ev4) \<le> (if c = x then 1 else 0) + visits x ev4"
          using v1 [of x] by simp
        also have "\<dots> \<le> path_count (Suc fuel) w dir c x" by (rule v4)
        finally show "visits x (ev1 @ ev4) \<le> path_count (Suc fuel) w dir c x" .
      qed
      ultimately show ?thesis using gw4 by blast
    qed
  qed
qed

subsection \<open>The prepare walk\<close>

lemma prepare_walk:
  assumes dec: "\<And>c' c. (c', c) \<in> walk_edges w dir \<Longrightarrow> rank c' < (rank c :: nat)"
    and asg: "pipelines_assigned w dir start"
    and cmp: "pipelines_completed w dir start"
    and keep: "prepare_hooks_keep_graph e"
  shows "same_graph w w1 \<Longrightarrow> rank c < fuel \<Longrightarrow> c = start \<or> c \<in> Domain (walk_edges w dir)
     \<Longrightarrow> \<exists>r w' ev. pipeline_comp_prepare fuel e start dir c w1 = Some (r, w', ev)
           \<and> same_graph w w' \<and> (\<forall>x. visits x ev \<le> path_count fuel w dir c x)"
proof (induction fuel arbitrary: c w1)
  case 0
  then show ?case by simp
next
  case (Suc fuel)
  from reached_ready [OF asg cmp Suc.prems(3)] obtain cp where
    cp: "pipeline (comps w c) = Some cp" and snk: "sink_comp (pipes w cp) \<noteq> None"
    by blast
  from cp Suc.prems(1) have cp1: "pipeline (comps w1 c) = Some cp"
    by (simp add: same_graph_pipeline)
  from foreign_stop_defined [OF Suc.prems(1) cp snk] obtain fs where
    fs: "foreign_pipeline_stop w1 c dir = Some fs"
    by blast
  define stop where "stop = (\<not> comp_is_single_pipeline (comps w1 c) (comps w1 start) \<and> fs)"
  have st: "(if comp_is_single_pipeline (comps w1 c) (comps w1 start) then Some False
             else foreign_pipeline_stop w1 c dir) = Some stop"
    by (simp add: stop_def fs)
  obtain r0 w0 ev0 where ti: "pipeline_comp_task_init e cp w1 = (r0, w0, ev0)"
    by (cases "pipeline_comp_task_init e cp w1")
  have g0: "same_graph w1 w0" and v0: "\<And>x. visits x ev0 = 0"
    using task_init_keeps_graph [OF ti] by blast+
  have gw0: "same_graph w w0" using Suc.prems(1) g0 by (rule same_graph_trans)
  obtain r1 w2 ev1 where cr: "comp_prepare e c w0 = Some (r1, w2, ev1)"
    and g2: "same_graph w0 w2" and v1: "\<And>x. visits x ev1 \<le> (if c = x then 1 else 0)"
    using comp_prepare_keeps_graph [OF keep] by blast
  have gw2: "same_graph w w2" using gw0 g2 by (rule same_graph_trans)
  have "\<exists>r w' ev. pipeline_for_each_comp c (pipeline_comp_prepare fuel e start dir)
              (Some (buffer_reset_pos e)) dir w2
            = Some (r, w', ev) \<and> same_graph w w' \<and>
           (\<forall>x. (if c = x then 1 else 0) + visits x ev \<le> path_count (Suc fuel) w dir c x)"
  proof (rule for_each_comp_walk [where I = "same_graph w" and rank = rank])
    show "\<And>w1 b. same_graph w w1 \<Longrightarrow>
            buffer_get_comp (buffers w1 b) dir = buffer_get_comp (buffers w b) dir"
      by (rule same_graph_far)
    show "\<And>w1 b f. same_graph w w1 \<Longrightarrow> Some (buffer_reset_pos e) = Some f
            \<Longrightarrow> same_graph w (w1\<lparr>buffers := (buffers w1)(b := f (buffers w1 b))\<rparr>)"
      using keep by (auto simp: prepare_hooks_keep_graph_def intro: same_graph_buffer_update)
    show "\<And>c' c. (c', c) \<in> walk_edges w dir \<Longrightarrow> rank c' < rank c" by (rule dec)
    show "rank c < Suc fuel" by (rule Suc.prems(2))
    show "same_graph w w2" by (rule gw2)
    show "comp_buffer_list (comps w2 c) dir = comp_buffer_list (comps w c) dir"
      using gw2 by (rule same_graph_list)
  next
    fix c' wa
    assume e: "(c', c) \<in> walk_edges w dir" and r: "rank c' < fuel" and g: "same_graph w wa"
    from e have "c' = start \<or> c' \<in> Domain (walk_edges w dir)" by auto
    with g r show "\<exists>r w' ev. pipeline_comp_prepare fuel e start dir c' wa = Some (r, w', ev)
                     \<and> same_graph w w' \<and> (\<forall>x. visits x ev \<le> path_count fuel w dir c' x)"
      by (rule Suc.IH)
  qed
  then obtain r4 w4 ev4 where
    fe: "pipeline_for_each_comp c (pipeline_comp_prepare fuel e start dir)
           (Some (buffer_reset_pos e)) dir w2 = Some (r4, w4, ev4)"
    and gw4: "same_graph w w4"
    and v4: "\<And>x. (if c = x then 1 else 0) + visits x ev4 \<le> path_count (Suc fuel) w dir c x"
    by blast
  show ?case
  proof (cases stop)
    case True
    with st have "pipeline_comp_prepare (Suc fuel) e start dir c w1 = Some (0, w1, [])" by simp
    with Suc.prems(1) show ?thesis by simp
  next
    case go: False
    show ?thesis
    proof (cases "r0 < 0")
      case True
      with st go cp1 ti have "pipeline_comp_prepare (Suc fuel) e start dir c w1 =
          Some (r0, w0, ev0)"
        by simp
      with gw0 v0 show ?thesis by simp
    next
      case ok: False
      show ?thesis
      proof (cases "r1 < 0 \<or> r1 = PPL_STATUS_PATH_STOP")
        case True
        with st go cp1 ti ok cr have "pipeline_comp_prepare (Suc fuel) e start dir c w1 =
            Some (r1, w2, ev0 @ ev1)"
          by simp
        moreover have "\<And>x. visits x (ev0 @ ev1) \<le> path_count (Suc fuel) w dir c x"
        proof -
          fix x
          have "visits x (ev0 @ ev1) \<le> (if c = x then 1 else 0)"
            using v0 [of x] v1 [of x] by simp
          also have "\<dots> \<le> path_count (Suc fuel) w dir c x" by (rule self_le_path_count)
          finally show "visits x (ev0 @ ev1) \<le> path_count (Suc fuel) w dir c x" .
        qed
        ultimately show ?thesis using gw2 by blast
      next
        case False
        with st go cp1 ti ok cr fe have "pipeline_comp_prepare (Suc fuel) e start dir c w1 =
            Some (r4, w4, ev0 @ ev1 @ ev4)"
          by simp
        moreover have "\<And>x. visits x (ev0 @ ev1 @ ev4) \<le> path_count (Suc fuel) w dir c x"
        proof -
          fix x
          have "visits x (ev0 @ ev1 @ ev4) \<le> (if c = x then 1 else 0) + visits x ev4"
            using v0 [of x] v1 [of x] by simp
          also have "\<dots> \<le> path_count (Suc fuel) w dir c x" by (rule v4)
          finally show "visits x (ev0 @ ev1 @ ev4) \<le> path_count (Suc fuel) w dir c x" .
        qed
        ultimately show ?thesis using gw4 by blast
      qed
    qed
  qed
qed

subsection \<open>The free walk\<close>

lemma partly_freed_refl: "partly_freed w dir w"
  by (simp add: partly_freed_def)

lemma partly_freed_unassign:
  "partly_freed w dir w1
     \<Longrightarrow> partly_freed w dir (w1\<lparr>comps := (comps w1)(c := (comps w1 c)\<lparr>pipeline := None\<rparr>)\<rparr>)"
  by (cases "dir = PPL_DIR_DOWNSTREAM") (auto simp: partly_freed_def comp_buffer_list_def)

lemma partly_freed_unlink:
  "partly_freed w dir w1
     \<Longrightarrow> partly_freed w dir
           (w1\<lparr>comps := (comps w1)(c :=
                  (if dir = PPL_DIR_DOWNSTREAM
                   then (comps w1 c)\<lparr>bsink_list := []\<rparr>
                   else (comps w1 c)\<lparr>bsource_list := []\<rparr>))\<rparr>)"
  by (cases "dir = PPL_DIR_DOWNSTREAM") (auto simp: partly_freed_def comp_buffer_list_def)

lemma free_walk:
  assumes dec: "\<And>c' c. (c', c) \<in> walk_edges w dir \<Longrightarrow> rank c' < (rank c :: nat)"
  shows "partly_freed w dir w1 \<Longrightarrow> rank c < fuel
     \<Longrightarrow> \<exists>r w' ev. pipeline_comp_free fuel start dir c w1 = Some (r, w', ev)
           \<and> partly_freed w dir w' \<and> (\<forall>x. visits x ev \<le> path_count fuel w dir c x)"
proof (induction fuel arbitrary: c w1)
  case 0
  then show ?case by simp
next
  case (Suc fuel)
  define w2 where "w2 = w1\<lparr>comps := (comps w1)(c := (comps w1 c)\<lparr>pipeline := None\<rparr>)\<rparr>"
  have p2: "partly_freed w dir w2"
    unfolding w2_def using Suc.prems(1) by (rule partly_freed_unassign)
  have "\<exists>r w' ev. pipeline_for_each_comp c (pipeline_comp_free fuel start dir) None dir w2
            = Some (r, w', ev) \<and> partly_freed w dir w' \<and>
           (\<forall>x. visits x ev \<le> path_count (Suc fuel) w dir c x)"
  proof (cases "comp_buffer_list (comps w2 c) dir = comp_buffer_list (comps w c) dir")
    case True
    have "\<exists>r w' ev. pipeline_for_each_comp c (pipeline_comp_free fuel start dir) None dir w2
            = Some (r, w', ev) \<and> partly_freed w dir w' \<and>
           (\<forall>x. (if c = x then 1 else 0) + visits x ev \<le> path_count (Suc fuel) w dir c x)"
    proof (rule for_each_comp_walk [where I = "partly_freed w dir" and rank = rank])
      show "\<And>w1 b. partly_freed w dir w1 \<Longrightarrow>
              buffer_get_comp (buffers w1 b) dir = buffer_get_comp (buffers w b) dir"
        by (simp add: partly_freed_def)
      show "\<And>w1 b f. partly_freed w dir w1 \<Longrightarrow> None = Some f
              \<Longrightarrow> partly_freed w dir (w1\<lparr>buffers := (buffers w1)(b := f (buffers w1 b))\<rparr>)"
        by simp
      show "\<And>c' c. (c', c) \<in> walk_edges w dir \<Longrightarrow> rank c' < rank c" by (rule dec)
      show "rank c < Suc fuel" by (rule Suc.prems(2))
      show "partly_freed w dir w2" by (rule p2)
      show "comp_buffer_list (comps w2 c) dir = comp_buffer_list (comps w c) dir" by (rule True)
    next
      fix c' wa
      assume "(c', c) \<in> walk_edges w dir" and r: "rank c' < fuel" and g: "partly_freed w dir wa"
      from g r show "\<exists>r w' ev. pipeline_comp_free fuel start dir c' wa = Some (r, w', ev)
                       \<and> partly_freed w dir w' \<and> (\<forall>x. visits x ev \<le> path_count fuel w dir c' x)"
        by (rule Suc.IH)
    qed
    then show ?thesis by (meson add_leD2)
  next
    case False
    with p2 have "comp_buffer_list (comps w2 c) dir = []" by (auto simp: partly_freed_def)
    then have "pipeline_for_each_comp c (pipeline_comp_free fuel start dir) None dir w2
                 = Some (0, w2, [])"
      by (simp add: pipeline_for_each_comp_def)
    with p2 show ?thesis by simp
  qed
  then obtain r4 w4 ev4 where
    fe: "pipeline_for_each_comp c (pipeline_comp_free fuel start dir) None dir w2 =
           Some (r4, w4, ev4)"
    and p4: "partly_freed w dir w4"
    and v4: "\<And>x. visits x ev4 \<le> path_count (Suc fuel) w dir c x"
    by blast
  show ?case
  proof (cases "comp_is_single_pipeline (comps w1 c) (comps w1 start)")
    case False
    then have "pipeline_comp_free (Suc fuel) start dir c w1 = Some (0, w1, [])" by simp
    with Suc.prems(1) show ?thesis by simp
  next
    case True
    with fe have "pipeline_comp_free (Suc fuel) start dir c w1 =
        Some (0, w4\<lparr>comps := (comps w4)(c :=
                  (if dir = PPL_DIR_DOWNSTREAM
                   then (comps w4 c)\<lparr>bsink_list := []\<rparr>
                   else (comps w4 c)\<lparr>bsource_list := []\<rparr>))\<rparr>, ev4)"
      by (simp add: Let_def w2_def)
    with partly_freed_unlink [OF p4] v4 show ?thesis by blast
  qed
qed

subsection \<open>Finite acyclic graphs\<close>

text \<open>
  In a finite acyclic relation the number of elements below an element drops
  along every edge, and is at most the number of edges.
\<close>

lemma finite_acyclic_rank:
  assumes "finite E" and "acyclic E" and "(c', c) \<in> E"
  shows "card {x. (x, c') \<in> E\<^sup>+} < card {x. (x, c) \<in> E\<^sup>+}"
proof (rule psubset_card_mono)
  have "{x. (x, c) \<in> E\<^sup>+} \<subseteq> Domain E" by (auto dest: tranclD)
  moreover have "finite (Domain E)" using assms(1) by (rule finite_Domain)
  ultimately show "finite {x. (x, c) \<in> E\<^sup>+}" by (rule finite_subset)
next
  have "c' \<in> {x. (x, c) \<in> E\<^sup>+}" using assms(3) by auto
  moreover have "c' \<notin> {x. (x, c') \<in> E\<^sup>+}" using assms(2) by (auto simp: acyclic_def)
  moreover have "{x. (x, c') \<in> E\<^sup>+} \<subseteq> {x. (x, c) \<in> E\<^sup>+}"
    using assms(3) by (auto intro: trancl_into_trancl)
  ultimately show "{x. (x, c') \<in> E\<^sup>+} \<subset> {x. (x, c) \<in> E\<^sup>+}" by blast
qed

lemma rank_le_edges:
  assumes "finite E"
  shows "card {x. (x, c) \<in> E\<^sup>+} \<le> card E"
proof -
  have "{x. (x, c) \<in> E\<^sup>+} \<subseteq> fst ` E" by (force dest: tranclD)
  then have "card {x. (x, c) \<in> E\<^sup>+} \<le> card (fst ` E)"
    using assms by (simp add: card_mono)
  also have "\<dots> \<le> card E" using assms by (rule card_image_le)
  finally show ?thesis .
qed

lemma acyclic_by_rank:
  assumes "\<And>a b. (a, b) \<in> E \<Longrightarrow> f a < (f b :: nat)"
  shows "acyclic E"
proof -
  have "E \<subseteq> measure f" using assms by auto
  then have "wf E" by (rule wf_subset [OF wf_measure])
  then show ?thesis by (rule wf_acyclic)
qed

text \<open>
  So every component of a finite acyclic graph has a rank below any depth that
  exceeds the number of edges, and the rank drops along every edge.
\<close>

lemma walk_rank:
  assumes "finite (walk_edges w dir)" and "acyclic (walk_edges w dir)"
    and "card (walk_edges w dir) < fuel"
  shows "\<exists>rank :: nat \<Rightarrow> nat. (\<forall>c' c. (c', c) \<in> walk_edges w dir \<longrightarrow> rank c' < rank c) \<and>
           (\<forall>c. rank c < fuel)"
proof (intro exI conjI allI impI)
  fix c' c
  assume "(c', c) \<in> walk_edges w dir"
  with assms(1,2) show "card {x. (x, c') \<in> (walk_edges w dir)\<^sup>+}
                        < card {x. (x, c) \<in> (walk_edges w dir)\<^sup>+}"
    by (rule finite_acyclic_rank)
next
  fix c
  from rank_le_edges [OF assms(1), of c] assms(3)
  show "card {x. (x, c) \<in> (walk_edges w dir)\<^sup>+} < fuel" by simp
qed

subsection \<open>The hooks and graphs of the concrete inputs\<close>

text \<open>The trigger hook of the drivers changes the state of its component only.\<close>

lemma comp_set_state_only_state:
  "\<exists>s. snd (comp_set_state dev cmd) = dev\<lparr>state := s\<rparr>"
proof -
  define P where "P x \<longleftrightarrow> (\<exists>s. snd x = dev\<lparr>state := s\<rparr>)" for x :: "int \<times> comp_dev"
  have branch: "\<And>c a b. P a \<Longrightarrow> P b \<Longrightarrow> P (if c then a else b)" by simp
  have kept: "\<And>k. P (k, dev)"
    unfolding P_def by (rule exI [of _ "state dev"]) simp
  have moved: "\<And>k s. P (k, dev\<lparr>state := s\<rparr>)"
    unfolding P_def by auto
  have "P (comp_set_state dev cmd)"
    unfolding comp_set_state_def Let_def by (intro branch kept moved)
  then show ?thesis by (simp add: P_def)
qed

lemma comp_set_state_keeps_links:
  assumes "comp_set_state dev cmd = (r, dev')"
  shows "bsource_list dev' = bsource_list dev \<and> bsink_list dev' = bsink_list dev \<and>
         pipeline dev' = pipeline dev \<and> comp_pipeline_id dev' = comp_pipeline_id dev"
proof -
  obtain s where "snd (comp_set_state dev cmd) = dev\<lparr>state := s\<rparr>"
    using comp_set_state_only_state by blast
  with assms show ?thesis by simp
qed

lemma driver_trigger_keeps_graph: "trigger_hooks_keep_graph driver_env"
proof -
  have "same_graph w (snd (test_keyword_trigger dev cmd w))" for dev cmd w
  proof -
    obtain r d where c: "comp_set_state (comps w dev) cmd = (r, d)"
      by (cases "comp_set_state (comps w dev) cmd")
    from comp_set_state_keeps_links [OF c] show ?thesis
      by (simp add: test_keyword_trigger_def c same_graph_def)
  qed
  then show ?thesis
    by (simp add: trigger_hooks_keep_graph_def driver_env_def)
qed

lemma set_state_keeps_graph:
  "same_graph w (w\<lparr>comps := (comps w)(dev := snd (comp_set_state (comps w dev) cmd))\<rparr>)"
proof -
  obtain r d where c: "comp_set_state (comps w dev) cmd = (r, d)"
    by (cases "comp_set_state (comps w dev) cmd")
  from comp_set_state_keeps_links [OF c] show ?thesis
    by (simp add: c same_graph_def)
qed

lemma driver_prepare_keeps_graph: "prepare_hooks_keep_graph driver_env"
proof -
  have "same_graph w (snd (test_keyword_prepare dev w))" for dev w
    using set_state_keeps_graph [of w dev COMP_TRIGGER_PREPARE]
    by (simp add: test_keyword_prepare_def split_beta)
  then show ?thesis
    by (simp add: prepare_hooks_keep_graph_def driver_env_def)
qed

lemma keyword_reset_keeps_graph: "same_graph w (snd (test_keyword_reset dev w))"
  using set_state_keeps_graph [of w dev COMP_TRIGGER_RESET]
  by (simp add: test_keyword_reset_def split_beta)

lemma driver_reset_keeps_graph: "reset_hooks_keep_graph driver_env"
  using keyword_reset_keeps_graph by (auto simp: reset_hooks_keep_graph_def driver_env_def)

lemma failing_reset_keeps_graph: "reset_hooks_keep_graph failing_reset_env"
  using keyword_reset_keeps_graph
  by (auto simp: reset_hooks_keep_graph_def failing_reset_env_def split: if_splits)

lemma driver_copy_keeps_graph: "copy_hooks_keep_graph driver_env"
  by (simp add: copy_hooks_keep_graph_def driver_env_def idle_copy_def)

text \<open>The graph whose paths rejoin.\<close>

lemma rejoining_edges:
  "walk_edges rejoining_graph PPL_DIR_DOWNSTREAM = {(1, 0), (2, 0), (3, 1), (3, 2)}"
  by (auto simp: walk_edges_def rejoining_graph_def graph_dev_def link_buffer_def unused_dev_def
      comp_buffer_list_def buffer_get_comp_def split: if_splits)

lemma rejoining_acyclic: "acyclic (walk_edges rejoining_graph PPL_DIR_DOWNSTREAM)"
  by (rule acyclic_by_rank [where f = "\<lambda>c. 3 - c"]) (auto simp: rejoining_edges)

lemma rejoining_assigned: "pipelines_assigned rejoining_graph PPL_DIR_DOWNSTREAM 0"
  by (auto simp: pipelines_assigned_def rejoining_edges)
     (simp_all add: rejoining_graph_def graph_dev_def)

lemma rejoining_completed: "pipelines_completed rejoining_graph PPL_DIR_DOWNSTREAM 0"
  by (simp add: pipelines_completed_def rejoining_graph_def)

text \<open>The playback chain.\<close>

lemma chain_edges:
  "walk_edges (playback_chain st pst xb) SOF_IPC_STREAM_PLAYBACK = {(1, 0), (2, 1)}"
  by (auto simp: walk_edges_def playback_chain_def graph_dev_def link_buffer_def unused_dev_def
      comp_buffer_list_def buffer_get_comp_def SOF_IPC_STREAM_PLAYBACK_def PPL_DIR_DOWNSTREAM_def
      split: if_splits)

lemma chain_direction:
  "direction (comps (playback_chain st pst xb) 0) = SOF_IPC_STREAM_PLAYBACK"
  by (simp add: playback_chain_def graph_dev_def)

lemma chain_acyclic: "acyclic (walk_edges (playback_chain st pst xb) SOF_IPC_STREAM_PLAYBACK)"
  by (rule acyclic_by_rank [where f = "\<lambda>c. 3 - c"]) (auto simp: chain_edges)

lemma chain_assigned: "pipelines_assigned (playback_chain st pst xb) SOF_IPC_STREAM_PLAYBACK 0"
  by (auto simp: pipelines_assigned_def chain_edges)
     (simp_all add: playback_chain_def graph_dev_def)

lemma chain_completed: "pipelines_completed (playback_chain st pst xb) SOF_IPC_STREAM_PLAYBACK 0"
  by (simp add: pipelines_completed_def playback_chain_def)

section \<open>Reset\<close>

lemma reset_hooks_ok_simps [simp]:
  "reset_hooks_ok []"
  "reset_hooks_ok (a @ b) \<longleftrightarrow> reset_hooks_ok a \<and> reset_hooks_ok b"
  "reset_hooks_ok [CompReset c r] \<longleftrightarrow> 0 \<le> r"
  by (auto simp: reset_hooks_ok_def)

lemma stops_at_failure_append:
  assumes "stops_at_failure r1 ev1" and "0 \<le> r1" and "stops_at_failure r2 ev2"
  shows "stops_at_failure r2 (ev1 @ ev2)"
proof -
  from assms(1,2) have ok1: "reset_hooks_ok ev1"
    by (auto simp: stops_at_failure_def)
  from assms(3) consider
    (ok) "0 \<le> r2" "reset_hooks_ok ev2"
    | (fail) pre c where "r2 < 0" "ev2 = pre @ [CompReset c r2]" "reset_hooks_ok pre"
    by (auto simp: stops_at_failure_def)
  then show ?thesis
  proof cases
    case ok
    with ok1 show ?thesis by (simp add: stops_at_failure_def)
  next
    case fail
    then have "ev1 @ ev2 = (ev1 @ pre) @ [CompReset c r2]" and "reset_hooks_ok (ev1 @ pre)"
      using ok1 by simp_all
    with fail(1) show ?thesis unfolding stops_at_failure_def by blast
  qed
qed

lemma for_each_stops_at_failure:
  assumes "\<And>c w r w' ev. func c w = Some (r, w', ev) \<Longrightarrow> stops_at_failure r ev"
    and "0 \<le> err"
    and "for_each_buffer func bf dir bs err w = Some (r, w', ev)"
  shows "stops_at_failure r ev"
  using assms(2,3)
proof (induction bs arbitrary: err w r w' ev)
  case Nil
  then show ?case by (simp add: stops_at_failure_def)
next
  case (Cons b bs)
  let ?w1 = "case bf of None \<Rightarrow> w | Some f \<Rightarrow> w\<lparr>buffers := (buffers w)(b := f (buffers w b))\<rparr>"
  show ?case
  proof (cases "buffer_get_comp (buffers ?w1 b) dir")
    case None
    with Cons.prems have "for_each_buffer func bf dir bs err ?w1 = Some (r, w', ev)"
      by (simp add: Let_def)
    with Cons.IH Cons.prems(1) show ?thesis by blast
  next
    case (Some c)
    with Cons.prems obtain r1 w2 ev1 where f: "func c ?w1 = Some (r1, w2, ev1)"
      by (auto simp add: Let_def split: option.splits)
    have s1: "stops_at_failure r1 ev1" using assms(1) f by blast
    show ?thesis
    proof (cases "r1 < 0")
      case True
      with Cons.prems Some f have "(r, w', ev) = (r1, w2, ev1)" by (simp add: Let_def)
      with s1 show ?thesis by simp
    next
      case False
      with Cons.prems Some f obtain ev2 where
        rest: "for_each_buffer func bf dir bs r1 w2 = Some (r, w', ev2)" and ev: "ev = ev1 @ ev2"
        by (auto simp add: Let_def split: option.splits)
      from False have "0 \<le> r1" by simp
      with Cons.IH rest have "stops_at_failure r ev2" by blast
      with s1 \<open>0 \<le> r1\<close> ev show ?thesis by (simp add: stops_at_failure_append)
    qed
  qed
qed

lemma comp_reset_stops_at_failure:
  "comp_reset e c w = Some (r, w', ev) \<Longrightarrow> stops_at_failure r ev"
  by (auto simp: comp_reset_def stops_at_failure_def split: option.splits prod.splits)

lemma pipeline_comp_reset_stops_at_failure:
  "pipeline_comp_reset fuel e p dir current w = Some (r, w', ev) \<Longrightarrow> stops_at_failure r ev"
proof (induction fuel arbitrary: current w r w' ev)
  case 0
  then show ?case by simp
next
  case (Suc fuel)
  from Suc.prems obtain src where src: "source_comp (pipes w p) = Some src"
    by (auto split: option.splits)
  let ?stop = "if comp_is_single_pipeline (comps w current) (comps w src) then Some False
               else foreign_pipeline_stop w current dir"
  from Suc.prems src obtain b where b: "?stop = Some b"
    by (cases ?stop) (auto split: option.splits)
  show ?case
  proof (cases b)
    case True
    with Suc.prems src b have "(r, w', ev) = (0, w, [])" by (auto split: option.splits)
    then show ?thesis by (simp add: stops_at_failure_def)
  next
    case False
    with Suc.prems src b obtain r1 w1 ev1 where cr: "comp_reset e current w = Some (r1, w1, ev1)"
      by (auto split: option.splits)
    have s1: "stops_at_failure r1 ev1" using cr by (rule comp_reset_stops_at_failure)
    show ?thesis
    proof (cases "r1 < 0 \<or> r1 = PPL_STATUS_PATH_STOP")
      case True
      with Suc.prems src b False cr have "(r, w', ev) = (r1, w1, ev1)"
        by (auto split: option.splits)
      with s1 show ?thesis by simp
    next
      case nostop: False
      with Suc.prems src b False cr obtain ev2 where
        fe: "pipeline_for_each_comp current (pipeline_comp_reset fuel e p dir) None dir w1 =
               Some (r, w', ev2)"
        and ev: "ev = ev1 @ ev2"
        by (auto split: option.splits)
      have "stops_at_failure r ev2"
        using for_each_stops_at_failure [where func = "pipeline_comp_reset fuel e p dir" and err = 0]
          Suc.IH fe unfolding pipeline_for_each_comp_def by blast
      moreover from nostop have "0 \<le> r1" by simp
      ultimately show ?thesis using s1 ev by (simp add: stops_at_failure_append)
    qed
  qed
qed

text \<open>
  When nothing stops the walk, it resets every component once for every path.
\<close>

lemma no_reset_stop_simps [simp]:
  "no_reset_stop []"
  "no_reset_stop (a @ b) \<longleftrightarrow> no_reset_stop a \<and> no_reset_stop b"
  "no_reset_stop (CompReset c r # evs) \<longleftrightarrow>
     0 \<le> r \<and> r \<noteq> PPL_STATUS_PATH_STOP \<and> no_reset_stop evs"
  by (auto simp: no_reset_stop_def)

lemma same_graph_single:
  "same_graph w w1 \<Longrightarrow>
   comp_is_single_pipeline (comps w1 c) (comps w1 s) = comp_is_single_pipeline (comps w c) (comps w s)"
  by (simp add: same_graph_def comp_is_single_pipeline_def)

text \<open>
  A loop none of whose reset hooks failed or reported path-stop has passed
  every buffer, and its visits are those of all the callbacks.
\<close>

lemma for_each_exact:
  assumes far: "\<And>w1 b. I w1 \<Longrightarrow>
                 buffer_get_comp (buffers w1 b) dir = buffer_get_comp (buffers w b) dir"
    and step: "\<And>b c' w1 r w' ev. b \<in> set bs \<Longrightarrow> buffer_get_comp (buffers w b) dir = Some c'
                 \<Longrightarrow> I w1 \<Longrightarrow> func c' w1 = Some (r, w', ev) \<Longrightarrow> no_reset_stop ev
                 \<Longrightarrow> I w' \<and> 0 \<le> r \<and> (\<forall>x. visits x ev = g c' x)"
    and inv: "I w1"
    and run: "for_each_buffer func None dir bs err w1 = Some (r, w', ev)"
    and ok: "no_reset_stop ev"
    and err: "0 \<le> err"
  shows "I w' \<and> 0 \<le> r \<and>
           (\<forall>x. visits x ev =
                  sum_list (map (\<lambda>b. case buffer_get_comp (buffers w b) dir of
                                        None \<Rightarrow> 0 | Some c' \<Rightarrow> g c' x) bs))"
  using step inv run ok err
proof (induction bs arbitrary: err w1 r w' ev)
  case Nil
  then show ?case by simp
next
  case (Cons b bs)
  have far1: "buffer_get_comp (buffers w1 b) dir = buffer_get_comp (buffers w b) dir"
    using Cons.prems(2) by (rule far)
  have rest: "\<And>b c' w1 r w' ev. b \<in> set bs \<Longrightarrow> buffer_get_comp (buffers w b) dir = Some c'
                 \<Longrightarrow> I w1 \<Longrightarrow> func c' w1 = Some (r, w', ev) \<Longrightarrow> no_reset_stop ev
                 \<Longrightarrow> I w' \<and> 0 \<le> r \<and> (\<forall>x. visits x ev = g c' x)"
    by (rule Cons.prems(1)) auto
  show ?case
  proof (cases "buffer_get_comp (buffers w b) dir")
    case None
    with far1 Cons.prems(3) have l: "for_each_buffer func None dir bs err w1 = Some (r, w', ev)"
      by simp
    have "I w' \<and> 0 \<le> r \<and>
           (\<forall>x. visits x ev =
                  sum_list (map (\<lambda>b. case buffer_get_comp (buffers w b) dir of
                                        None \<Rightarrow> 0 | Some c' \<Rightarrow> g c' x) bs))"
      using rest Cons.prems(2) l Cons.prems(4,5) by (rule Cons.IH)
    with None show ?thesis by simp
  next
    case (Some c')
    with far1 Cons.prems(3) obtain r1 w2 ev1 where f: "func c' w1 = Some (r1, w2, ev1)"
      by (auto split: option.splits)
    show ?thesis
    proof (cases "r1 < 0")
      case True
      with Cons.prems(3) far1 Some f have "ev = ev1" by simp
      with Cons.prems(4) have "no_reset_stop ev1" by simp
      with Cons.prems(1) [of b c' w1 r1 w2 ev1] Some Cons.prems(2) f have "0 \<le> r1" by simp
      with True show ?thesis by simp
    next
      case False
      with Cons.prems(3) far1 Some f obtain ev2 where
        l: "for_each_buffer func None dir bs r1 w2 = Some (r, w', ev2)" and ev: "ev = ev1 @ ev2"
        by (auto split: option.splits)
      from ev Cons.prems(4) have ok1: "no_reset_stop ev1" and ok2: "no_reset_stop ev2" by simp_all
      from Cons.prems(1) [of b c' w1 r1 w2 ev1] Some Cons.prems(2) f ok1
      have i2: "I w2" and r1: "0 \<le> r1" and v1: "\<And>x. visits x ev1 = g c' x" by simp_all
      have "I w' \<and> 0 \<le> r \<and>
           (\<forall>x. visits x ev2 =
                  sum_list (map (\<lambda>b. case buffer_get_comp (buffers w b) dir of
                                        None \<Rightarrow> 0 | Some c' \<Rightarrow> g c' x) bs))"
        using rest i2 l ok2 r1 by (rule Cons.IH)
      with Some ev v1 show ?thesis by simp
    qed
  qed
qed

text \<open>
  In a pipeline all of whose components have a reset hook, a walk none of whose
  hooks failed or reported path-stop has called the hook of every component
  exactly once for every buffer path that leads to it.
\<close>

lemma reset_walk_exact:
  assumes src: "source_comp (pipes w p) = Some s"
    and dom: "\<And>c. c = start \<or> c \<in> Domain (walk_edges w dir)
                \<Longrightarrow> comp_is_single_pipeline (comps w c) (comps w s)"
    and hooks: "\<And>dev. ops_reset e dev \<noteq> None"
    and keep: "reset_hooks_keep_graph e"
  shows "same_graph w w1 \<Longrightarrow> c = start \<or> c \<in> Domain (walk_edges w dir)
     \<Longrightarrow> pipeline_comp_reset fuel e p dir c w1 = Some (r, w', ev) \<Longrightarrow> no_reset_stop ev
     \<Longrightarrow> same_graph w w' \<and> 0 \<le> r \<and> (\<forall>x. visits x ev = path_count fuel w dir c x)"
proof (induction fuel arbitrary: c w1 r w' ev)
  case 0
  then show ?case by simp
next
  case (Suc fuel)
  from src Suc.prems(1) have s: "source_comp (pipes w1 p) = Some s"
    by (simp add: same_graph_source)
  have single: "comp_is_single_pipeline (comps w1 c) (comps w1 s)"
    using dom [OF Suc.prems(2)] Suc.prems(1) by (simp add: same_graph_single)
  from hooks [of c] obtain hook where h: "ops_reset e c = Some hook" by auto
  obtain r1 w2 where hw: "hook w1 = (r1, w2)" by (cases "hook w1")
  have cr: "comp_reset e c w1 = Some (r1, w2, [CompReset c r1])"
    by (simp add: comp_reset_def h hw)
  from keep h have "same_graph w1 (snd (hook w1))"
    unfolding reset_hooks_keep_graph_def by blast
  with hw have g2: "same_graph w1 w2" by simp
  have gw2: "same_graph w w2" using Suc.prems(1) g2 by (rule same_graph_trans)
  have go: "\<not> (r1 < 0 \<or> r1 = PPL_STATUS_PATH_STOP)"
  proof
    assume "r1 < 0 \<or> r1 = PPL_STATUS_PATH_STOP"
    with Suc.prems(3) s single cr have "ev = [CompReset c r1]" by auto
    with Suc.prems(4) \<open>r1 < 0 \<or> r1 = PPL_STATUS_PATH_STOP\<close> show False by auto
  qed
  with Suc.prems(3) s single cr obtain ev4 where
    fe: "pipeline_for_each_comp c (pipeline_comp_reset fuel e p dir) None dir w2 =
           Some (r, w', ev4)"
    and ev: "ev = [CompReset c r1] @ ev4"
    by (auto split: option.splits)
  from ev Suc.prems(4) have ok4: "no_reset_stop ev4" by simp
  from fe have fe': "for_each_buffer (pipeline_comp_reset fuel e p dir) None dir
          (comp_buffer_list (comps w c) dir) 0 w2 = Some (r, w', ev4)"
    using same_graph_list [OF gw2] by (simp add: pipeline_for_each_comp_def)
  have "same_graph w w' \<and> 0 \<le> r \<and>
           (\<forall>x. visits x ev4 =
                  sum_list (map (\<lambda>b. case buffer_get_comp (buffers w b) dir of
                                        None \<Rightarrow> 0 | Some c' \<Rightarrow> path_count fuel w dir c' x)
                             (comp_buffer_list (comps w c) dir)))"
  proof (rule for_each_exact [where I = "same_graph w" and func = "pipeline_comp_reset fuel e p dir"
        and g = "\<lambda>c' x. path_count fuel w dir c' x"])
    show "\<And>w1 b. same_graph w w1 \<Longrightarrow>
            buffer_get_comp (buffers w1 b) dir = buffer_get_comp (buffers w b) dir"
      by (rule same_graph_far)
    show "same_graph w w2" by (rule gw2)
    show "for_each_buffer (pipeline_comp_reset fuel e p dir) None dir
          (comp_buffer_list (comps w c) dir) 0 w2 = Some (r, w', ev4)" by (rule fe')
    show "no_reset_stop ev4" by (rule ok4)
    show "(0 :: int) \<le> 0" by simp
  next
    fix b c' wa ra wb eva
    assume b: "b \<in> set (comp_buffer_list (comps w c) dir)"
      and f: "buffer_get_comp (buffers w b) dir = Some c'" and g: "same_graph w wa"
      and run: "pipeline_comp_reset fuel e p dir c' wa = Some (ra, wb, eva)"
      and ok: "no_reset_stop eva"
    from b f have "(c', c) \<in> walk_edges w dir" by (auto simp: walk_edges_def)
    then have "c' = start \<or> c' \<in> Domain (walk_edges w dir)" by auto
    with g show "same_graph w wb \<and> 0 \<le> ra \<and> (\<forall>x. visits x eva = path_count fuel w dir c' x)"
      using run ok by (rule Suc.IH)
  qed
  with ev show ?case by simp
qed

lemma chain_within_pipeline:
  "within_pipeline (playback_chain st pst xb) SOF_IPC_STREAM_PLAYBACK 0 0"
proof -
  have "source_comp (pipes (playback_chain st pst xb) 0) = Some 0"
    by (simp add: playback_chain_def)
  moreover have "\<forall>c. c = 0 \<or> c \<in> Domain (walk_edges (playback_chain st pst xb) SOF_IPC_STREAM_PLAYBACK)
          \<longrightarrow> comp_is_single_pipeline (comps (playback_chain st pst xb) c)
                (comps (playback_chain st pst xb) 0)"
    by (auto simp: chain_edges) (simp_all add: playback_chain_def graph_dev_def
        comp_is_single_pipeline_def)
  ultimately show ?thesis unfolding within_pipeline_def by blast
qed

text \<open>
  C6, as the specification states it, fails. On the playback chain the reset
  hook of the Volume fails: the walk that began at the Host ends there,
  \<^verbatim>\<open>pipeline_reset\<close> returns the error, and the reset hook of the DAI, which
  is a member of the same pipeline and is reachable, is never called: the DAI
  is left in PREPARE.
\<close>

theorem pipeline_reset_aborts_at_failing_hook:
  "comp_is_single_pipeline (comps (playback_chain COMP_STATE_PREPARE COMP_STATE_PREPARE 0) 2)
     (comps (playback_chain COMP_STATE_PREPARE COMP_STATE_PREPARE 0) 0) \<and>
   ret_of (pipeline_reset 3 failing_reset_env 0 0
             (playback_chain COMP_STATE_PREPARE COMP_STATE_PREPARE 0)) = Some (- EINVAL) \<and>
   events_of (pipeline_reset 3 failing_reset_env 0 0
                (playback_chain COMP_STATE_PREPARE COMP_STATE_PREPARE 0))
     = Some [CompReset 0 0, CompReset 1 (- EINVAL)] \<and>
   map_option (\<lambda>w. state (comps w 2))
     (world_of (pipeline_reset 3 failing_reset_env 0 0
                  (playback_chain COMP_STATE_PREPARE COMP_STATE_PREPARE 0)))
     = Some COMP_STATE_PREPARE"
  by code_simp

text \<open>
  C6, amended. A failure returned by the reset hook of a component ends the
  reset walk. On a finite acyclic graph whose components belong to completed
  pipelines, and with reset hooks that do not rewire the graph,
  \<^verbatim>\<open>pipeline_reset\<close> returns as soon as the recursion depth exceeds the
  number of edges; either its result is not negative and no reset hook that
  was called failed, or the failing hook is the last hook the walk called, no
  hook before it failed, and the walk returns the error of that hook. The
  hooks that were called are those of components on a buffer path from the
  component the walk began at, each at most once for every such path. When
  all those components are members of the pipeline and have a reset hook, and
  no hook that was called failed or reported path-stop, the walk has called
  the reset hook of each of them exactly once for every such path: only then
  is every reachable component known to be reset.
\<close>

theorem pipeline_reset_returns_first_failure:
  assumes "finite (walk_edges w (direction (comps w host)))"
    and "acyclic (walk_edges w (direction (comps w host)))"
    and "pipelines_assigned w (direction (comps w host)) host"
    and "pipelines_completed w (direction (comps w host)) host"
    and "source_comp (pipes w p) \<noteq> None"
    and "reset_hooks_keep_graph e"
    and "card (walk_edges w (direction (comps w host))) < fuel"
  shows "\<exists>ret w' evs. pipeline_reset fuel e p host w = Some (ret, w', evs) \<and>
           stops_at_failure ret evs \<and>
           (\<forall>c. visits c evs \<le> path_count fuel w (direction (comps w host)) host c) \<and>
           (within_pipeline w (direction (comps w host)) host p \<and>
            (\<forall>dev. ops_reset e dev \<noteq> None) \<and> no_reset_stop evs \<longrightarrow>
              0 \<le> ret \<and>
              (\<forall>c. visits c evs = path_count fuel w (direction (comps w host)) host c))"
proof -
  let ?dir = "direction (comps w host)"
  from walk_rank [OF assms(1,2,7)] obtain rank :: "nat \<Rightarrow> nat" where
    dec: "\<And>c' c. (c', c) \<in> walk_edges w ?dir \<Longrightarrow> rank c' < rank c"
    and low: "rank host < fuel"
    by blast
  have here: "host = host \<or> host \<in> Domain (walk_edges w ?dir)" by simp
  have "\<exists>r w' evs. pipeline_comp_reset fuel e p ?dir host w = Some (r, w', evs) \<and>
            same_graph w w' \<and> (\<forall>c. visits c evs \<le> path_count fuel w ?dir host c)"
    using dec assms(3,4,5,6) same_graph_refl low here by (rule reset_walk)
  then obtain ret w' evs where
    res: "pipeline_comp_reset fuel e p ?dir host w = Some (ret, w', evs)"
    and v: "\<forall>c. visits c evs \<le> path_count fuel w ?dir host c"
    by blast
  from res have st: "stops_at_failure ret evs" by (rule pipeline_comp_reset_stops_at_failure)
  have exact: "0 \<le> ret \<and> (\<forall>c. visits c evs = path_count fuel w ?dir host c)"
    if wp: "within_pipeline w ?dir host p" and hooks: "\<forall>dev. ops_reset e dev \<noteq> None"
      and ok: "no_reset_stop evs"
  proof -
    from wp obtain s where s: "source_comp (pipes w p) = Some s"
      and dom: "\<And>c. c = host \<or> c \<in> Domain (walk_edges w ?dir)
                  \<Longrightarrow> comp_is_single_pipeline (comps w c) (comps w s)"
      unfolding within_pipeline_def by blast
    from hooks have h: "\<And>dev. ops_reset e dev \<noteq> None" by simp
    from reset_walk_exact [OF s dom h assms(6) same_graph_refl here res ok]
    show ?thesis by simp
  qed
  from res st v exact show ?thesis unfolding pipeline_reset_def by blast
qed

theorem pipeline_reset_returns_first_failure_witness:
  "finite (walk_edges (playback_chain COMP_STATE_ACTIVE COMP_STATE_ACTIVE 0)
             (direction (comps (playback_chain COMP_STATE_ACTIVE COMP_STATE_ACTIVE 0) 0))) \<and>
   acyclic (walk_edges (playback_chain COMP_STATE_ACTIVE COMP_STATE_ACTIVE 0)
              (direction (comps (playback_chain COMP_STATE_ACTIVE COMP_STATE_ACTIVE 0) 0))) \<and>
   pipelines_assigned (playback_chain COMP_STATE_ACTIVE COMP_STATE_ACTIVE 0)
     (direction (comps (playback_chain COMP_STATE_ACTIVE COMP_STATE_ACTIVE 0) 0)) 0 \<and>
   pipelines_completed (playback_chain COMP_STATE_ACTIVE COMP_STATE_ACTIVE 0)
     (direction (comps (playback_chain COMP_STATE_ACTIVE COMP_STATE_ACTIVE 0) 0)) 0 \<and>
   source_comp (pipes (playback_chain COMP_STATE_ACTIVE COMP_STATE_ACTIVE 0) 0) = Some 0 \<and>
   reset_hooks_keep_graph failing_reset_env \<and>
   reset_hooks_keep_graph driver_env \<and>
   card (walk_edges (playback_chain COMP_STATE_ACTIVE COMP_STATE_ACTIVE 0)
           (direction (comps (playback_chain COMP_STATE_ACTIVE COMP_STATE_ACTIVE 0) 0))) < 3 \<and>
   ret_of (pipeline_reset 3 failing_reset_env 0 0
             (playback_chain COMP_STATE_ACTIVE COMP_STATE_ACTIVE 0)) = Some (- EINVAL) \<and>
   events_of (pipeline_reset 3 failing_reset_env 0 0
                (playback_chain COMP_STATE_ACTIVE COMP_STATE_ACTIVE 0))
     = Some [CompReset 0 0, CompReset 1 (- EINVAL)] \<and>
   stops_at_failure (- EINVAL) [CompReset 0 0, CompReset 1 (- EINVAL)] \<and>
   visits 2 [CompReset 0 0, CompReset 1 (- EINVAL)] = 0 \<and>
   within_pipeline (playback_chain COMP_STATE_ACTIVE COMP_STATE_ACTIVE 0)
     (direction (comps (playback_chain COMP_STATE_ACTIVE COMP_STATE_ACTIVE 0) 0)) 0 0 \<and>
   (\<forall>dev. ops_reset driver_env dev \<noteq> None) \<and>
   ret_of (pipeline_reset 3 driver_env 0 0
             (playback_chain COMP_STATE_ACTIVE COMP_STATE_ACTIVE 0)) = Some 0 \<and>
   events_of (pipeline_reset 3 driver_env 0 0
                (playback_chain COMP_STATE_ACTIVE COMP_STATE_ACTIVE 0))
     = Some [CompReset 0 0, CompReset 1 0, CompReset 2 0] \<and>
   no_reset_stop [CompReset 0 0, CompReset 1 0, CompReset 2 0] \<and>
   visits 2 [CompReset 0 0, CompReset 1 0, CompReset 2 0]
     = path_count 3 (playback_chain COMP_STATE_ACTIVE COMP_STATE_ACTIVE 0)
         (direction (comps (playback_chain COMP_STATE_ACTIVE COMP_STATE_ACTIVE 0) 0)) 0 2 \<and>
   path_count 3 (playback_chain COMP_STATE_ACTIVE COMP_STATE_ACTIVE 0)
     (direction (comps (playback_chain COMP_STATE_ACTIVE COMP_STATE_ACTIVE 0) 0)) 0 2 = 1"
proof -
  let ?w = "playback_chain COMP_STATE_ACTIVE COMP_STATE_ACTIVE 0"
  let ?dir = "direction (comps ?w 0)"
  let ?fail = "pipeline_reset 3 failing_reset_env 0 0 ?w"
  let ?run = "pipeline_reset 3 driver_env 0 0 ?w"
  have d: "?dir = SOF_IPC_STREAM_PLAYBACK" by (rule chain_direction)
  have fin: "finite (walk_edges ?w ?dir)" by (simp add: d chain_edges)
  have acy: "acyclic (walk_edges ?w ?dir)" by (simp add: d chain_acyclic)
  have asg: "pipelines_assigned ?w ?dir 0" by (simp add: d chain_assigned)
  have cmp: "pipelines_completed ?w ?dir 0" by (simp add: d chain_completed)
  have src: "source_comp (pipes ?w 0) = Some 0" by (simp add: playback_chain_def)
  then have src': "source_comp (pipes ?w 0) \<noteq> None" by simp
  have few: "card (walk_edges ?w ?dir) < 3" by (simp add: d chain_edges)
  have wp: "within_pipeline ?w ?dir 0 0" by (simp add: d chain_within_pipeline)
  have hooks: "\<forall>dev. ops_reset driver_env dev \<noteq> None" by (simp add: driver_env_def)
  have r1: "ret_of ?fail = Some (- EINVAL)" by code_simp
  have ev1: "events_of ?fail = Some [CompReset 0 0, CompReset 1 (- EINVAL)]" by code_simp
  have r2: "ret_of ?run = Some 0" by code_simp
  have ev2: "events_of ?run = Some [CompReset 0 0, CompReset 1 0, CompReset 2 0]" by code_simp
  have ok: "no_reset_stop [CompReset 0 0, CompReset 1 0, CompReset 2 0]"
    by (simp add: PPL_STATUS_PATH_STOP_def)
  have paths: "path_count 3 ?w ?dir 0 2 = 1" by code_simp
  from pipeline_reset_returns_first_failure [OF fin acy asg cmp src' failing_reset_keeps_graph few]
  obtain ret w' evs where run: "?fail = Some (ret, w', evs)" and s: "stops_at_failure ret evs"
    by blast
  from run r1 ev1 have "ret = - EINVAL" "evs = [CompReset 0 0, CompReset 1 (- EINVAL)]"
    by (simp_all add: ret_of_def events_of_def)
  with s have fails: "stops_at_failure (- EINVAL) [CompReset 0 0, CompReset 1 (- EINVAL)]"
    by simp
  have none: "visits 2 [CompReset 0 0, CompReset 1 (- EINVAL)] = 0" by simp
  from pipeline_reset_returns_first_failure [OF fin acy asg cmp src' driver_reset_keeps_graph few]
  obtain ret2 w2 evs2 where run2: "?run = Some (ret2, w2, evs2)"
    and x: "within_pipeline ?w ?dir 0 0 \<and> (\<forall>dev. ops_reset driver_env dev \<noteq> None) \<and>
            no_reset_stop evs2 \<longrightarrow>
              0 \<le> ret2 \<and> (\<forall>c. visits c evs2 = path_count 3 ?w ?dir 0 c)"
    by blast
  from run2 ev2 have e2: "evs2 = [CompReset 0 0, CompReset 1 0, CompReset 2 0]"
    by (simp add: events_of_def)
  from x wp hooks ok e2
  have all: "visits 2 [CompReset 0 0, CompReset 1 0, CompReset 2 0] = path_count 3 ?w ?dir 0 2"
    by blast
  from fin acy asg cmp src failing_reset_keeps_graph driver_reset_keeps_graph few r1 ev1 fails
    none wp hooks r2 ev2 ok all paths
  show ?thesis by (intro conjI)
qed

section \<open>Triggers on a pipeline with a pending XRUN\<close>

text \<open>
  A STOP on a pipeline whose XRUN is pending is answered with success; nothing
  is changed and no hook, scheduler or allocator is called.
\<close>

lemma xrun_stop_is_noop:
  assumes "xrun_bytes (pipes w p) \<noteq> 0" and "status (pipes w p) = COMP_STATE_PAUSED"
  shows "pipeline_trigger fuel e p host COMP_TRIGGER_STOP w = Some (0, w, [])"
  using assms
  by (simp add: pipeline_trigger_def pipeline_xrun_handle_trigger_def comp_trigger_defs
      PPL_STATUS_PATH_STOP_def)

text \<open>
  A START on such a pipeline prepares the pipeline from its source component
  first. A failed prepare is the result of the trigger. Otherwise the pending
  byte count is cleared, and the START walk begins in that state, its events
  after those of the prepare walk; but when the prepare walk returned the
  path-stop status, the trigger returns 0 at this point and no START walk
  takes place.
\<close>

lemma xrun_start_after_prepare:
  assumes "xrun_bytes (pipes w p) \<noteq> 0" and "status (pipes w p) = COMP_STATE_PAUSED"
    and "source_comp (pipes w p) = Some src"
  shows "pipeline_trigger fuel e p host COMP_TRIGGER_START w =
    (case pipeline_prepare fuel e p src w of
       None \<Rightarrow> None
     | Some (ret, w1, ev1) \<Rightarrow>
         if ret < 0 then Some (ret, w1, ev1)
         else (let w2 = w1\<lparr>pipes := (pipes w1)(p := (pipes w1 p)\<lparr>xrun_bytes := 0\<rparr>)\<rparr>
               in if ret = PPL_STATUS_PATH_STOP then Some (0, w2, ev1)
                  else (case pipeline_comp_trigger fuel e host COMP_TRIGGER_START
                               (direction (comps w2 host)) host w2 of
                          None \<Rightarrow> None
                        | Some (ret2, w3, ev2) \<Rightarrow> Some (ret2, w3, ev1 @ ev2))))"
  using assms
  by (auto simp add: pipeline_trigger_def pipeline_xrun_handle_trigger_def comp_trigger_defs
      Let_def split: option.splits)

text \<open>
  The prepare walk reports path-stop as soon as the last component it reaches
  is already prepared. \<^verbatim>\<open>pipeline_xrun_recover\<close>, the recovery path of the
  periodic task, prepares and starts the same pipeline in the same state: it
  tests the result of the prepare for failure only, and the START walk runs.
\<close>

lemma xrun_recover_starts_after_path_stop:
  "ret_of (pipeline_xrun_recover 5 driver_env 0 mixer_topology) = Some 0 \<and>
   events_of (pipeline_xrun_recover 5 driver_env 0 mixer_topology)
     = Some [CompPrepare 0 0, CompPrepare 1 0,
             CompPrepare 2 PPL_STATUS_PATH_STOP,
             CompTrigger 0 COMP_TRIGGER_START 0, ScheduleTask 0,
             CompTrigger 1 COMP_TRIGGER_START 0]"
  by code_simp

text \<open>
  C7. The claim holds for STOP and for a failing prepare (the two lemmas
  above), and the code departs from it for START when the prepare walk
  succeeds with the path-stop status. In the two-pipeline graph the XRUN of
  pipeline 0 is pending; the START prepares Host and Volume, reaches the
  already prepared Mixer of pipeline 1, which answers path-stop, and then
  returns 0: the pending byte count is cleared, but no trigger hook is called,
  the task is not scheduled, the Host stays in PREPARE and the pipeline in
  status PREPARE.
\<close>

theorem xrun_start_lost_after_path_stop:
  "xrun_bytes (pipes mixer_topology 0) \<noteq> 0 \<and>
   status (pipes mixer_topology 0) = COMP_STATE_PAUSED \<and>
   ret_of (pipeline_trigger 5 driver_env 0 0 COMP_TRIGGER_START mixer_topology) = Some 0 \<and>
   events_of (pipeline_trigger 5 driver_env 0 0 COMP_TRIGGER_START mixer_topology)
     = Some [CompPrepare 0 0, CompPrepare 1 0, CompPrepare 2 PPL_STATUS_PATH_STOP] \<and>
   map_option (\<lambda>w. (state (comps w 0), status (pipes w 0), xrun_bytes (pipes w 0)))
     (world_of (pipeline_trigger 5 driver_env 0 0 COMP_TRIGGER_START mixer_topology))
     = Some (COMP_STATE_PREPARE, COMP_STATE_PREPARE, 0)"
  by code_simp

section \<open>Termination of the graph walk\<close>

text \<open>
  C8, as the specification states it, fails. The graph whose paths rejoin is
  finite and acyclic, and the START walk from component 0 returns; but it
  calls the trigger hook of the mixer, component 3, twice, once through each
  of the two buffers that lead to it.
\<close>

theorem rejoining_graph_visited_twice:
  "finite (walk_edges rejoining_graph PPL_DIR_DOWNSTREAM) \<and>
   acyclic (walk_edges rejoining_graph PPL_DIR_DOWNSTREAM) \<and>
   events_of (pipeline_comp_trigger 4 driver_env 0 COMP_TRIGGER_START PPL_DIR_DOWNSTREAM 0
                rejoining_graph)
     = Some [CompTrigger 0 COMP_TRIGGER_START 0, CompTrigger 1 COMP_TRIGGER_START 0,
             CompTrigger 3 COMP_TRIGGER_START 0, ScheduleTask 0,
             CompTrigger 2 COMP_TRIGGER_START 0,
             CompTrigger 3 COMP_TRIGGER_START COMP_STATUS_STATE_ALREADY_SET] \<and>
   map_option (visits 3)
     (events_of (pipeline_comp_trigger 4 driver_env 0 COMP_TRIGGER_START PPL_DIR_DOWNSTREAM 0
                   rejoining_graph)) = Some 2"
proof (intro conjI)
  show "finite (walk_edges rejoining_graph PPL_DIR_DOWNSTREAM)"
    by (simp add: rejoining_edges)
  show "acyclic (walk_edges rejoining_graph PPL_DIR_DOWNSTREAM)"
    by (rule rejoining_acyclic)
  show "events_of (pipeline_comp_trigger 4 driver_env 0 COMP_TRIGGER_START PPL_DIR_DOWNSTREAM 0
                rejoining_graph)
     = Some [CompTrigger 0 COMP_TRIGGER_START 0, CompTrigger 1 COMP_TRIGGER_START 0,
             CompTrigger 3 COMP_TRIGGER_START 0, ScheduleTask 0,
             CompTrigger 2 COMP_TRIGGER_START 0,
             CompTrigger 3 COMP_TRIGGER_START COMP_STATUS_STATE_ALREADY_SET]"
    by code_simp
  show "map_option (visits 3)
     (events_of (pipeline_comp_trigger 4 driver_env 0 COMP_TRIGGER_START PPL_DIR_DOWNSTREAM 0
                   rejoining_graph)) = Some 2"
    by code_simp
qed

text \<open>
  C8, amended. On every finite acyclic component and buffer graph whose
  components belong to completed pipelines, and with driver hooks that do not
  rewire the graph, each of the walks that \<^verbatim>\<open>pipeline_for_each_comp\<close>
  drives (trigger, prepare, reset, copy, XRUN notification and free) returns
  as soon as the recursion depth exceeds the number of edges. A walk visits a
  component (calls its driver hook, or notifies the host for it) at most once
  for every buffer path that leads from the start component to it: at most
  once where that path is unique, more often where paths rejoin. The free
  walk calls no hook and notifies nobody.
\<close>

theorem graph_walks_terminate:
  assumes fin: "finite (walk_edges w dir)" and acy: "acyclic (walk_edges w dir)"
    and asg: "pipelines_assigned w dir start" and cmp: "pipelines_completed w dir start"
    and src: "source_comp (pipes w p) \<noteq> None"
    and kt: "trigger_hooks_keep_graph e" and kp: "prepare_hooks_keep_graph e"
    and kr: "reset_hooks_keep_graph e" and kc: "copy_hooks_keep_graph e"
    and fuel: "card (walk_edges w dir) < fuel"
  shows "(\<exists>r w' evs. pipeline_comp_trigger fuel e start cmd dir start w = Some (r, w', evs) \<and>
            (\<forall>c. visits c evs \<le> path_count fuel w dir start c))
       \<and> (\<exists>r w' evs. pipeline_comp_prepare fuel e start dir start w = Some (r, w', evs) \<and>
            (\<forall>c. visits c evs \<le> path_count fuel w dir start c))
       \<and> (\<exists>r w' evs. pipeline_comp_reset fuel e p dir start w = Some (r, w', evs) \<and>
            (\<forall>c. visits c evs \<le> path_count fuel w dir start c))
       \<and> (\<exists>r w' evs. pipeline_comp_copy fuel e start dir start w = Some (r, w', evs) \<and>
            (\<forall>c. visits c evs \<le> path_count fuel w dir start c))
       \<and> (\<exists>r w' evs. pipeline_comp_xrun fuel xrun_size xrun_comp_id dir start w
                         = Some (r, w', evs) \<and>
            (\<forall>c. visits c evs \<le> path_count fuel w dir start c))
       \<and> (\<exists>r w' evs. pipeline_comp_free fuel start dir start w = Some (r, w', evs))"
proof -
  from walk_rank [OF fin acy fuel] obtain rank :: "nat \<Rightarrow> nat" where
    dec: "\<And>c' c. (c', c) \<in> walk_edges w dir \<Longrightarrow> rank c' < rank c"
    and low: "rank start < fuel"
    by blast
  have here: "start = start \<or> start \<in> Domain (walk_edges w dir)" by simp
  have member: "pipeline (comps w start) \<noteq> None"
    using asg by (simp add: pipelines_assigned_def)
  have "\<exists>r w' evs. pipeline_comp_trigger fuel e start cmd dir start w = Some (r, w', evs) \<and>
            same_graph w w' \<and> (\<forall>c. visits c evs \<le> path_count fuel w dir start c)"
    using dec asg kt same_graph_refl low member by (rule trigger_walk)
  moreover
  have "\<exists>r w' evs. pipeline_comp_prepare fuel e start dir start w = Some (r, w', evs) \<and>
            same_graph w w' \<and> (\<forall>c. visits c evs \<le> path_count fuel w dir start c)"
    using dec asg cmp kp same_graph_refl low here by (rule prepare_walk)
  moreover
  have "\<exists>r w' evs. pipeline_comp_reset fuel e p dir start w = Some (r, w', evs) \<and>
            same_graph w w' \<and> (\<forall>c. visits c evs \<le> path_count fuel w dir start c)"
    using dec asg cmp src kr same_graph_refl low here by (rule reset_walk)
  moreover
  have "\<exists>r w' evs. pipeline_comp_copy fuel e start dir start w = Some (r, w', evs) \<and>
            same_graph w w' \<and> (\<forall>c. visits c evs \<le> path_count fuel w dir start c)"
    using dec kc same_graph_refl low by (rule copy_walk)
  moreover
  have "\<exists>r evs. pipeline_comp_xrun fuel xrun_size xrun_comp_id dir start w = Some (r, w, evs) \<and>
            (\<forall>c. visits c evs \<le> path_count fuel w dir start c)"
    using dec low by (rule xrun_walk)
  moreover
  have "\<exists>r w' evs. pipeline_comp_free fuel start dir start w = Some (r, w', evs) \<and>
            partly_freed w dir w' \<and> (\<forall>c. visits c evs \<le> path_count fuel w dir start c)"
    using dec partly_freed_refl low by (rule free_walk)
  ultimately show ?thesis by blast
qed

theorem graph_walks_terminate_witness:
  "finite (walk_edges rejoining_graph PPL_DIR_DOWNSTREAM) \<and>
   acyclic (walk_edges rejoining_graph PPL_DIR_DOWNSTREAM) \<and>
   pipelines_assigned rejoining_graph PPL_DIR_DOWNSTREAM 0 \<and>
   pipelines_completed rejoining_graph PPL_DIR_DOWNSTREAM 0 \<and>
   source_comp (pipes rejoining_graph 0) = Some 0 \<and>
   trigger_hooks_keep_graph driver_env \<and> prepare_hooks_keep_graph driver_env \<and>
   reset_hooks_keep_graph driver_env \<and> copy_hooks_keep_graph driver_env \<and>
   card (walk_edges rejoining_graph PPL_DIR_DOWNSTREAM) < 5 \<and>
   (\<exists>r w' evs.
      pipeline_comp_trigger 5 driver_env 0 COMP_TRIGGER_START PPL_DIR_DOWNSTREAM 0
        rejoining_graph = Some (r, w', evs) \<and>
      visits 3 evs \<le> path_count 5 rejoining_graph PPL_DIR_DOWNSTREAM 0 3) \<and>
   (\<exists>r w' evs.
      pipeline_comp_prepare 5 driver_env 0 PPL_DIR_DOWNSTREAM 0 rejoining_graph
        = Some (r, w', evs) \<and>
      visits 3 evs \<le> path_count 5 rejoining_graph PPL_DIR_DOWNSTREAM 0 3) \<and>
   (\<exists>r w' evs.
      pipeline_comp_reset 5 driver_env 0 PPL_DIR_DOWNSTREAM 0 rejoining_graph
        = Some (r, w', evs) \<and>
      visits 3 evs \<le> path_count 5 rejoining_graph PPL_DIR_DOWNSTREAM 0 3) \<and>
   (\<exists>r w' evs.
      pipeline_comp_copy 5 driver_env 0 PPL_DIR_DOWNSTREAM 0 rejoining_graph
        = Some (r, w', evs) \<and>
      visits 3 evs \<le> path_count 5 rejoining_graph PPL_DIR_DOWNSTREAM 0 3) \<and>
   (\<exists>r w' evs.
      pipeline_comp_xrun 5 (- 512) 10 PPL_DIR_DOWNSTREAM 0 rejoining_graph
        = Some (r, w', evs) \<and>
      visits 3 evs \<le> path_count 5 rejoining_graph PPL_DIR_DOWNSTREAM 0 3) \<and>
   (\<exists>r w' evs.
      pipeline_comp_free 5 0 PPL_DIR_DOWNSTREAM 0 rejoining_graph = Some (r, w', evs)) \<and>
   path_count 5 rejoining_graph PPL_DIR_DOWNSTREAM 0 3 = 2"
proof -
  have fin: "finite (walk_edges rejoining_graph PPL_DIR_DOWNSTREAM)"
    by (simp add: rejoining_edges)
  have few: "card (walk_edges rejoining_graph PPL_DIR_DOWNSTREAM) < 5"
    by (simp add: rejoining_edges)
  have src: "source_comp (pipes rejoining_graph 0) = Some 0"
    by (simp add: rejoining_graph_def)
  then have src': "source_comp (pipes rejoining_graph 0) \<noteq> None" by simp
  have paths: "path_count 5 rejoining_graph PPL_DIR_DOWNSTREAM 0 3 = 2"
    by code_simp
  note walks = graph_walks_terminate [OF fin rejoining_acyclic rejoining_assigned
      rejoining_completed src' driver_trigger_keeps_graph driver_prepare_keeps_graph
      driver_reset_keeps_graph driver_copy_keeps_graph few,
      where cmd = COMP_TRIGGER_START and xrun_size = "- 512" and xrun_comp_id = 10]
  from walks have t: "\<exists>r w' evs.
      pipeline_comp_trigger 5 driver_env 0 COMP_TRIGGER_START PPL_DIR_DOWNSTREAM 0
        rejoining_graph = Some (r, w', evs) \<and>
      visits 3 evs \<le> path_count 5 rejoining_graph PPL_DIR_DOWNSTREAM 0 3"
    by blast
  from walks have p: "\<exists>r w' evs.
      pipeline_comp_prepare 5 driver_env 0 PPL_DIR_DOWNSTREAM 0 rejoining_graph
        = Some (r, w', evs) \<and>
      visits 3 evs \<le> path_count 5 rejoining_graph PPL_DIR_DOWNSTREAM 0 3"
    by blast
  from walks have r: "\<exists>r w' evs.
      pipeline_comp_reset 5 driver_env 0 PPL_DIR_DOWNSTREAM 0 rejoining_graph
        = Some (r, w', evs) \<and>
      visits 3 evs \<le> path_count 5 rejoining_graph PPL_DIR_DOWNSTREAM 0 3"
    by blast
  from walks have c: "\<exists>r w' evs.
      pipeline_comp_copy 5 driver_env 0 PPL_DIR_DOWNSTREAM 0 rejoining_graph
        = Some (r, w', evs) \<and>
      visits 3 evs \<le> path_count 5 rejoining_graph PPL_DIR_DOWNSTREAM 0 3"
    by blast
  from walks have x: "\<exists>r w' evs.
      pipeline_comp_xrun 5 (- 512) 10 PPL_DIR_DOWNSTREAM 0 rejoining_graph
        = Some (r, w', evs) \<and>
      visits 3 evs \<le> path_count 5 rejoining_graph PPL_DIR_DOWNSTREAM 0 3"
    by blast
  from walks have f: "\<exists>r w' evs.
      pipeline_comp_free 5 0 PPL_DIR_DOWNSTREAM 0 rejoining_graph = Some (r, w', evs)"
    by blast
  from fin rejoining_acyclic rejoining_assigned rejoining_completed src
    driver_trigger_keeps_graph driver_prepare_keeps_graph
    driver_reset_keeps_graph driver_copy_keeps_graph few t p r c x f paths
  show ?thesis by (intro conjI)
qed

section \<open>Freeing a pipeline\<close>




section \<open>Reporting an XRUN\<close>

text \<open>
  C10. When an XRUN is reported while the pipeline already has one pending, or
  while the reporting component is not ACTIVE, \<^verbatim>\<open>pipeline_xrun\<close> returns
  without any effect: the object graph is unchanged (the pending byte count and
  the status of the pipeline included) and nothing is asked of the driver
  hooks, the scheduler or the host.
\<close>

theorem pipeline_xrun_no_effect:
  assumes "xrun_bytes (pipes w p) \<noteq> 0 \<or> state (comps w dev) \<noteq> COMP_STATE_ACTIVE"
  shows "pipeline_xrun fuel e p dev bytes w = Some (w, [])"
  using assms by (auto simp: pipeline_xrun_def)

theorem pipeline_xrun_no_effect_witness:
  "state (comps (playback_chain COMP_STATE_PAUSED COMP_STATE_ACTIVE 0) 1) \<noteq> COMP_STATE_ACTIVE \<and>
   pipeline_xrun 4 driver_env 0 1 (- 512) (playback_chain COMP_STATE_PAUSED COMP_STATE_ACTIVE 0)
     = Some (playback_chain COMP_STATE_PAUSED COMP_STATE_ACTIVE 0, [])"
proof -
  let ?w = "playback_chain COMP_STATE_PAUSED COMP_STATE_ACTIVE 0"
  have idle: "state (comps ?w 1) \<noteq> COMP_STATE_ACTIVE"
    by (simp add: playback_chain_def graph_dev_def comp_state_defs)
  then have "xrun_bytes (pipes ?w 0) \<noteq> 0 \<or> state (comps ?w 1) \<noteq> COMP_STATE_ACTIVE"
    by simp
  from pipeline_xrun_no_effect [OF this] idle show ?thesis by simp
qed

text \<open>
  The guard matters: reported by the ACTIVE Volume of a healthy ACTIVE chain,
  the same XRUN resets the three components to READY, cancels the task, pauses
  the pipeline and records the byte count.
\<close>

lemma pipeline_xrun_active_effect:
  "map_option snd (pipeline_xrun 4 driver_env 0 1 (- 512)
                     (playback_chain COMP_STATE_ACTIVE COMP_STATE_ACTIVE 0))
     = Some [CompTrigger 0 COMP_TRIGGER_XRUN 0, CompTrigger 1 COMP_TRIGGER_XRUN 0,
             CompTrigger 2 COMP_TRIGGER_XRUN 0, ScheduleTaskCancel 0] \<and>
   map_option (\<lambda>r. (map (\<lambda>c. state (comps (fst r) c)) [0, 1, 2],
                    status (pipes (fst r) 0), xrun_bytes (pipes (fst r) 0)))
     (pipeline_xrun 4 driver_env 0 1 (- 512)
        (playback_chain COMP_STATE_ACTIVE COMP_STATE_ACTIVE 0))
     = Some ([COMP_STATE_READY, COMP_STATE_READY, COMP_STATE_READY], COMP_STATE_PAUSED, - 512)"
  by code_simp

end
